theory Spec2Isabelle
  imports Complex_Main "HOL-Library.Product_Lexorder" "HOL-Library.Word" "HOL-Library.Multiset"
    "HOL-Library.Char_ord" "HOL-Library.List_Lexorder"
begin

section \<open>The outbound message queue (\<open>MessageQueueOut\<close>)\<close>

text \<open>
  A priority is the Python triple \<open>(level, count, node)\<close>. Python compares tuples
  lexicographically, which is the order of \<open>HOL-Library.Product_Lexorder\<close> on the nested
  pair \<open>(level, (count, node))\<close>.
\<close>

type_synonym priority = "int \<times> int \<times> int"

definition level_of :: "priority \<Rightarrow> int" where
  "level_of p = fst p"

definition count_of :: "priority \<Rightarrow> int" where
  "count_of p = fst (snd p)"

definition node_of :: "priority \<Rightarrow> int" where
  "node_of p = snd (snd p)"

text \<open>
  The fields of \<open>MessageQueueOut.__init__\<close>. The \<open>queue.PriorityQueue\<close> is the list of its
  entries \<open>(priority, message)\<close> in insertion order; a \<open>collections.defaultdict(int)\<close> is a
  total function whose default is 0.
\<close>

record 'm MessageQueueOut =
  q :: "(priority \<times> 'm) list"
  lo_counts :: "int \<Rightarrow> int"
  hi_counts :: "int \<Rightarrow> int"
  lo_min :: int
  hi_min :: int
  counter :: int
  per_node_size :: "int \<Rightarrow> int"

definition MessageQueueOut_init :: "'m MessageQueueOut" where
  "MessageQueueOut_init =
     \<lparr>q = [], lo_counts = (\<lambda>_. 0), hi_counts = (\<lambda>_. 0), lo_min = 0, hi_min = 0,
      counter = 0, per_node_size = (\<lambda>_. 0)\<rparr>"

definition qsize :: "'m MessageQueueOut \<Rightarrow> nat" where
  "qsize s = length (q s)"

definition qsize_for_node :: "'m MessageQueueOut \<Rightarrow> int \<Rightarrow> int" where
  "qsize_for_node s n = per_node_size s n"

text \<open>\<open>MessageQueueOut.put\<close>, lines 113 to 133.\<close>

definition put :: "priority \<Rightarrow> 'm \<Rightarrow> 'm MessageQueueOut \<Rightarrow> 'm MessageQueueOut" where
  "put prio message s0 =
     (let s = (if q s0 = []
               then s0\<lparr>lo_counts := (\<lambda>_. 0), hi_counts := (\<lambda>_. 0), lo_min := 0, hi_min := 0\<rparr>
               else s0);
          level = level_of prio;
          node = node_of prio
      in if level = 2 then
           (let count = max (hi_counts s node + 1) (hi_min s)
            in s\<lparr>hi_counts := (hi_counts s)(node := count),
                 per_node_size := (per_node_size s)(node := per_node_size s node + 1),
                 q := q s @ [((level, count, node), message)]\<rparr>)
         else if level = 3 then
           (let count = max (lo_counts s node + 1) (lo_min s)
            in s\<lparr>lo_counts := (lo_counts s)(node := count),
                 per_node_size := (per_node_size s)(node := per_node_size s node + 1),
                 q := q s @ [((level, count, node), message)]\<rparr>)
         else
           (let count = counter s
            in s\<lparr>counter := counter s + 1,
                 per_node_size := (per_node_size s)(node := per_node_size s node + 1),
                 q := q s @ [((level, count, node), message)]\<rparr>))"

text \<open>
  \<open>queue.PriorityQueue.get\<close>: the entry with the least priority leaves the queue. On an
  empty queue the Python call blocks, which is the value \<open>None\<close> here. Entries are compared
  by their priority; \<open>put\<close> never stores two entries with the same priority (lemma
  \<open>reachable_distinct\<close> below), so the messages themselves are never compared.
\<close>

definition q_get :: "(priority \<times> 'm) list \<Rightarrow> ((priority \<times> 'm) \<times> (priority \<times> 'm) list) option" where
  "q_get es = (if es = [] then None
               else (let e = arg_min_list fst es in Some (e, remove1 e es)))"

text \<open>
  \<open>MessageQueueOut.get\<close>, lines 135 to 143. The second branch tests \<open>level == 2\<close> again, as
  the source does, so it is never taken.
\<close>

definition get :: "'m MessageQueueOut \<Rightarrow> ('m \<times> 'm MessageQueueOut) option" where
  "get s =
     (case q_get (q s) of
        None \<Rightarrow> None
      | Some ((prio, message), rest) \<Rightarrow>
          (let s1 = s\<lparr>q := rest\<rparr>;
               level = level_of prio;
               s2 = (if level = 2 then s1\<lparr>hi_min := count_of prio\<rparr>
                     else if level = 2 then s1\<lparr>lo_min := count_of prio\<rparr>
                     else s1);
               n = node_of prio
           in Some (message, s2\<lparr>per_node_size := (per_node_size s2)(n := per_node_size s2 n - 1)\<rparr>)))"

section \<open>Messages and \<open>Driver.SendMessage\<close>\<close>

type_synonym byte = "8 word"

text \<open>
  The completion callbacks that \<open>driver.py\<close> builds itself are the lambda of
  \<open>WaitUntilAllPreviousMessagesHaveBeenHandled\<close>, which releases a lock, and \<open>cb\<close> of
  \<open>Terminate\<close>, which sets \<open>_terminate\<close> and releases a lock. Any other callback belongs to
  the caller and is named by a number; so is the lock that a call of
  \<open>WaitUntilAllPreviousMessagesHaveBeenHandled\<close> creates.
\<close>

datatype callback = UserCallback nat | ReleaseLock nat | SetTerminateAndReleaseLock

text \<open>
  \<open>zmessage.Message(payload, priority, callback, node)\<close>, as \<open>driver.py\<close> constructs and
  reads it: the payload is \<open>None\<close> for the barrier messages.
\<close>

record message =
  payload :: "byte list option"
  priority :: priority
  callback :: callback
  node :: "int option"

definition dest :: "message \<Rightarrow> int" where
  "dest m = node_of (priority m)"

text \<open>\<open>Driver.SendMessage\<close>, lines 238 and 239, on the queue alone.\<close>

definition SendMessage :: "message \<Rightarrow> message MessageQueueOut \<Rightarrow> message MessageQueueOut" where
  "SendMessage m s = put (priority m) m s"

text \<open>\<open>n\<close> successive calls of \<open>get\<close>; the messages returned, up to the first call that blocks.\<close>

fun gets :: "nat \<Rightarrow> 'm MessageQueueOut \<Rightarrow> 'm list" where
  "gets 0 s = []"
| "gets (Suc n) s = (case get s of None \<Rightarrow> [] | Some (m, s') \<Rightarrow> m # gets n s')"

text \<open>The state after \<open>n\<close> successive calls of \<open>get\<close>.\<close>

fun after_gets :: "nat \<Rightarrow> 'm MessageQueueOut \<Rightarrow> 'm MessageQueueOut" where
  "after_gets 0 s = s"
| "after_gets (Suc n) s = (case get s of None \<Rightarrow> s | Some (m, s') \<Rightarrow> after_gets n s')"

text \<open>A low-priority message to a destination: level 3, the level of \<open>_lo_counts\<close>.\<close>

definition low_msg :: "int \<Rightarrow> byte list \<Rightarrow> message" where
  "low_msg d bs = \<lparr>payload = Some bs, priority = (3, 0, d), callback = UserCallback 0, node = Some d\<rparr>"

definition high_msg :: "int \<Rightarrow> byte list \<Rightarrow> message" where
  "high_msg d bs = \<lparr>payload = Some bs, priority = (2, 0, d), callback = UserCallback 0, node = Some d\<rparr>"

section \<open>Notions used in the statements about the queue\<close>

text \<open>The entries that \<open>n\<close> successive \<open>PriorityQueue.get\<close> calls take, in order.\<close>

fun drain :: "nat \<Rightarrow> (priority \<times> 'm) list \<Rightarrow> (priority \<times> 'm) list" where
  "drain 0 es = []"
| "drain (Suc n) es = (case q_get es of None \<Rightarrow> [] | Some (e, rest) \<Rightarrow> e # drain n rest)"

text \<open>
  A dequeue order \<open>ds\<close> of destinations is fair when, between two dequeues \<open>i < j\<close> of one
  destination, every other destination that is still queued at the second dequeue (it is
  dequeued later) has been dequeued.
\<close>

definition fair_order :: "int list \<Rightarrow> bool" where
  "fair_order ds =
     (\<forall>j \<in> {..<length ds}. \<forall>i \<in> {..<j}. ds ! i = ds ! j \<longrightarrow>
        (\<forall>d' \<in> set (drop (Suc j) ds). d' \<noteq> ds ! j \<longrightarrow>
           d' \<in> set (take (j - Suc i) (drop (Suc i) ds))))"

text \<open>The priorities in the queue.\<close>

definition keys :: "'m MessageQueueOut \<Rightarrow> priority set" where
  "keys s = fst ` set (q s)"

text \<open>
  What holds of the queue while messages are only put: the floors are still 0, and the
  counters of a destination at a fairness level are exactly 1 up to its count.
\<close>

definition batch_inv :: "'m MessageQueueOut \<Rightarrow> bool" where
  "batch_inv s \<longleftrightarrow>
     hi_min s = 0 \<and> lo_min s = 0 \<and>
     (\<forall>d. 0 \<le> hi_counts s d) \<and> (\<forall>d. 0 \<le> lo_counts s d) \<and>
     (\<forall>c d. (2, c, d) \<in> keys s \<longleftrightarrow> 1 \<le> c \<and> c \<le> hi_counts s d) \<and>
     (\<forall>c d. (3, c, d) \<in> keys s \<longleftrightarrow> 1 \<le> c \<and> c \<le> lo_counts s d) \<and>
     (\<forall>l c d. (l, c, d) \<in> keys s \<longrightarrow> l \<noteq> 2 \<longrightarrow> l \<noteq> 3 \<longrightarrow> c < counter s) \<and>
     distinct (map fst (q s))"

text \<open>The last three lines of \<open>put\<close>, for a count already chosen.\<close>

definition enqueue :: "priority \<Rightarrow> int \<Rightarrow> 'm \<Rightarrow> 'm MessageQueueOut \<Rightarrow> 'm MessageQueueOut" where
  "enqueue p n m s =
     s\<lparr>per_node_size := (per_node_size s)(node_of p := per_node_size s (node_of p) + 1),
       q := q s @ [((level_of p, n, node_of p), m)]\<rparr>"

text \<open>The first block of \<open>put\<close>, taken when the queue is empty.\<close>

definition reset_fairness :: "'m MessageQueueOut \<Rightarrow> 'm MessageQueueOut" where
  "reset_fairness s = s\<lparr>lo_counts := (\<lambda>_. 0), hi_counts := (\<lambda>_. 0), lo_min := 0, hi_min := 0\<rparr>"

text \<open>Every entry carries the level and the destination of its message's own priority.\<close>

definition tagged :: "message MessageQueueOut \<Rightarrow> bool" where
  "tagged s \<longleftrightarrow> (\<forall>e \<in> set (q s). level_of (fst e) = level_of (priority (snd e)) \<and>
                                 node_of (fst e) = dest (snd e))"

text \<open>The \<open>(count, node)\<close> keys of one level that \<open>n\<close> gets serve, in the order served.\<close>

definition served_keys :: "int \<Rightarrow> nat \<Rightarrow> 'm MessageQueueOut \<Rightarrow> (int \<times> int) list" where
  "served_keys L n s = map snd (filter (\<lambda>p. fst p = L) (map fst (drain n (q s))))"

section \<open>Diagnostics: \<open>MessageStatsString\<close> and \<open>Driver.__str__\<close>\<close>

text \<open>The Python exceptions that the modelled code can raise.\<close>

datatype py_error =
    ZeroDivisionError
  | TypeError
  | AttributeError
  | AssertionError
  | SerialException
  | KeyboardInterrupt

text \<open>
  A message in \<open>Driver._history\<close>, with the attributes that \<open>MessageStatsString\<close> reads:
  \<open>can\<close>, \<open>state\<close>, \<open>start\<close>, \<open>end\<close> (here \<open>end_ts\<close>, \<open>None\<close> until the message has ended) and
  the result of \<open>WasAborted()\<close>. Time stamps are Python floats; they are real numbers here,
  so the rounding of floating-point arithmetic is not modelled.
\<close>

record tracked_message = message +
  can :: int
  state :: string
  start :: real
  end_ts :: "real option"
  aborted :: bool

text \<open>Python's \<open>int(x)\<close> on a float truncates towards zero.\<close>

definition py_int :: "real \<Rightarrow> int" where
  "py_int x = (if 0 \<le> x then \<lfloor>x\<rfloor> else \<lceil>x\<rceil>)"

text \<open>Python's \<open>a // b\<close> on integers: floor division, which raises on a zero divisor.\<close>

definition floordiv :: "int \<Rightarrow> int \<Rightarrow> py_error + int" where
  "floordiv a b = (if b = 0 then Inl ZeroDivisionError else Inr (a div b))"

text \<open>The \<open>%\<close> formats in use: \<open>%d\<close>, \<open>%wd\<close> (right-justified) and \<open>%-ws\<close> (left-justified).\<close>

fun show_nat :: "nat \<Rightarrow> string" where
  "show_nat n = (if n < 10 then [''0123456789'' ! n]
                 else show_nat (n div 10) @ [''0123456789'' ! (n mod 10)])"

definition fmt_d :: "int \<Rightarrow> string" where
  "fmt_d i = (if i < 0 then CHR ''-'' # show_nat (nat (- i)) else show_nat (nat i))"

definition fmt_wd :: "nat \<Rightarrow> int \<Rightarrow> string" where
  "fmt_wd w i = replicate (w - length (fmt_d i)) CHR '' '' @ fmt_d i"

definition fmt_ls :: "nat \<Rightarrow> string \<Rightarrow> string" where
  "fmt_ls w s = s @ replicate (w - length s) CHR '' ''"

text \<open>\<open>"\n".join(out)\<close>.\<close>

fun join_lines :: "string list \<Rightarrow> string" where
  "join_lines [] = []"
| "join_lines [l] = l"
| "join_lines (l # ls) = l @ CHR 0x0A # join_lines ls"

text \<open>
  The counters of \<open>MessageStatsString\<close>. A \<open>collections.Counter\<close> is a total function with
  default 0 together with the list of its keys in insertion order.
\<close>

record stats =
  with_can :: int
  total_can :: int
  by_node_cnt :: "int option \<Rightarrow> int"
  by_node_can :: "int option \<Rightarrow> int"
  by_node_dur :: "int option \<Rightarrow> int"
  by_node_bad :: "int option \<Rightarrow> int"
  by_state :: "string \<Rightarrow> int"
  sum_duration :: int
  node_keys :: "int option list"
  state_keys :: "string list"

definition stats_init :: stats where
  "stats_init = \<lparr>with_can = 0, total_can = 0, by_node_cnt = (\<lambda>_. 0), by_node_can = (\<lambda>_. 0),
     by_node_dur = (\<lambda>_. 0), by_node_bad = (\<lambda>_. 0), by_state = (\<lambda>_. 0), sum_duration = 0,
     node_keys = [], state_keys = []\<rparr>"

text \<open>The body of the loop \<open>for m in mm\<close>, lines 62 to 75.\<close>

definition stats_step :: "tracked_message \<Rightarrow> stats \<Rightarrow> stats" where
  "stats_step m a0 =
     (let n = node m;
          a1 = (if can m > 0
                then a0\<lparr>with_can := with_can a0 + 1, total_can := total_can a0 + can m,
                        by_node_can := (by_node_can a0)(n := by_node_can a0 n + 1)\<rparr>
                else a0);
          a2 = a1\<lparr>by_state := (by_state a1)(state m := by_state a1 (state m) + 1),
                  state_keys := (if state m \<in> set (state_keys a1) then state_keys a1
                                 else state_keys a1 @ [state m]),
                  by_node_cnt := (by_node_cnt a1)(n := by_node_cnt a1 n + 1),
                  node_keys := (if n \<in> set (node_keys a1) then node_keys a1
                                else node_keys a1 @ [n])\<rparr>;
          a3 = (if aborted m then a2\<lparr>by_node_bad := (by_node_bad a2)(n := by_node_bad a2 n + 1)\<rparr>
                else a2)
      in case end_ts m of
           None \<Rightarrow> a3
         | Some e \<Rightarrow>
             if e = 0 then a3
             else (let duration = py_int (1000 * (e - start m))
                   in a3\<lparr>by_node_dur := (by_node_dur a3)(n := by_node_dur a3 n + duration),
                         sum_duration := sum_duration a3 + duration\<rparr>))"

text \<open>One line of the table by node, line 86 to 88; \<open>%2d\<close> of \<open>None\<close> is a \<open>TypeError\<close>.\<close>

definition node_line :: "stats \<Rightarrow> int option \<Rightarrow> py_error + string" where
  "node_line a k =
     (case k of
        None \<Rightarrow> Inl TypeError
      | Some n \<Rightarrow>
          (case floordiv (by_node_dur a k) (by_node_cnt a k) of
             Inl e \<Rightarrow> Inl e
           | Inr avg \<Rightarrow>
               Inr ('' '' @ fmt_wd 2 n @ '': '' @ fmt_wd 4 (by_node_cnt a k) @ '' ('' @
                    fmt_wd 3 (by_node_can a k) @ '') '' @ fmt_wd 4 avg @ ''ms ('' @
                    fmt_wd 3 (by_node_bad a k) @ '')'')))"

text \<open>A loop that appends one line per key and stops at the first exception.\<close>

fun node_lines :: "stats \<Rightarrow> int option list \<Rightarrow> py_error + string list" where
  "node_lines a [] = Inr []"
| "node_lines a (k # ks) =
     (case node_line a k of
        Inl e \<Rightarrow> Inl e
      | Inr l \<Rightarrow> (case node_lines a ks of Inl e \<Rightarrow> Inl e | Inr ls \<Rightarrow> Inr (l # ls)))"

text \<open>
  \<open>sorted(by_node_cnt.keys())\<close>: comparing \<open>None\<close> with an integer is a \<open>TypeError\<close>; a lone
  \<open>None\<close> key is sorted without a comparison and fails at its \<open>%2d\<close> instead.
\<close>

definition sorted_node_keys :: "int option list \<Rightarrow> py_error + int option list" where
  "sorted_node_keys ks =
     (if None \<in> set ks \<and> 1 < length ks then Inl TypeError
      else if None \<in> set ks then Inr ks
      else Inr (map Some (sort (map the ks))))"

text \<open>\<open>MessageStatsString\<close>, lines 48 to 89.\<close>

definition MessageStatsString :: "tracked_message list \<Rightarrow> py_error + string" where
  "MessageStatsString hist =
     (let cutoff = 0 :: nat;
          mm = (if cutoff > 0 then drop (length hist - cutoff) hist else hist);
          count = int (length mm);
          a = fold stats_step mm stats_init
      in case floordiv (sum_duration a) count of
           Inl e \<Rightarrow> Inl e
         | Inr avg \<Rightarrow>
             (let out1 = [''processed: '' @ fmt_d count @ ''  with-can: '' @ fmt_d (with_can a) @
                            '' (total can: '' @ fmt_d (total_can a) @ '') avg-time: '' @
                            fmt_d avg @ ''ms'',
                          ''by state:''];
                  out2 = out1 @ map (\<lambda>n. '' '' @ fmt_ls 20 n @ '': '' @ fmt_wd 4 (by_state a n))
                                   (sort (state_keys a));
                  out3 = out2 @ [''node  cnt nt can dur. bad'']
              in case sorted_node_keys (node_keys a) of
                   Inl e \<Rightarrow> Inl e
                 | Inr ks \<Rightarrow>
                     (case node_lines a ks of
                        Inl e \<Rightarrow> Inl e
                      | Inr ls \<Rightarrow> Inr (join_lines (out3 @ ls)))))"

text \<open>
  \<open>Driver.__str__\<close>, lines 212 to 216. The list is built left to right, so
  \<open>str(self._out_queue)\<close> and \<open>str(self._inflight.GetMessage())\<close> are already rendered (the
  two strings given here) when \<open>MessageStatsString(self._history)\<close> is called.
\<close>

definition Driver_str :: "string \<Rightarrow> string \<Rightarrow> tracked_message list \<Rightarrow> py_error + string" where
  "Driver_str out_queue_str inflight_str hist =
     (case MessageStatsString hist of
        Inl e \<Rightarrow> Inl e
      | Inr st \<Rightarrow> Inr (join_lines [out_queue_str, ''inflight: '' @ inflight_str, st]))"

text \<open>Every key of \<open>by_node_cnt\<close> has been counted at least once.\<close>

definition counted :: "stats \<Rightarrow> bool" where
  "counted a \<longleftrightarrow> (\<forall>k. 0 \<le> by_node_cnt a k) \<and> (\<forall>k \<in> set (node_keys a). 1 \<le> by_node_cnt a k)"

section \<open>The driver: state, \<open>_SendRaw\<close> and the receiving thread\<close>

text \<open>
  Modelled from the spec: the wire control bytes and the frame-start marker of section 6
  (\<open>z.SOF\<close> and \<open>zmessage.RAW_MESSAGE_ACK\<close> are not in \<open>driver.py\<close>).
\<close>

definition SOF :: byte where
  "SOF = 0x01"

definition ACK :: byte where
  "ACK = 0x06"

definition NAK :: byte where
  "NAK = 0x15"

definition CAN :: byte where
  "CAN = 0x18"

definition RAW_MESSAGE_ACK :: "byte list" where
  "RAW_MESSAGE_ACK = [ACK]"

text \<open>
  The values of \<open>next_action\<close> that the receiving thread tests for; \<open>DO_NOTHING\<close> stands for
  every other value, for which no branch is taken.
\<close>

datatype next_action = DO_NOTHING | DO_ACK | DO_RETRY | DO_PROPAGATE

text \<open>
  The functions of \<open>zmessage\<close> that \<open>driver.py\<close> calls are parameters: \<open>'i\<close> is the state
  of the \<open>InflightMessage\<close> object, which \<open>StartMessage\<close> and
  \<open>NextActionForReceivedMessage\<close> may change. \<open>WaitForMessageCompletion\<close> blocks: its
  value is \<open>None\<close> while the call cannot return, and the state it leaves when it can.
\<close>

record 'i zmessage =
  ExtracRawMessage :: "byte list \<Rightarrow> byte list option"
  NextActionForReceivedMessage :: "real \<Rightarrow> byte list \<Rightarrow> 'i \<Rightarrow> (next_action \<times> string) \<times> 'i"
  GetMessage :: "'i \<Rightarrow> message option"
  StartMessage :: "message \<Rightarrow> real \<Rightarrow> 'i \<Rightarrow> bool \<times> 'i"
  WaitForMessageCompletion :: "'i \<Rightarrow> 'i option"

text \<open>
  The fields of \<open>Driver\<close> that the threads share. \<open>device\<close> is the list of the byte
  strings written to the serial device, in order; an entry of \<open>in_queue\<close> with \<open>None\<close> is
  the shutdown marker of \<open>Terminate\<close>.
\<close>

record 'i Driver =
  out_queue :: "message MessageQueueOut"
  raw_history :: "(real \<times> bool \<times> byte list option \<times> string) list"
  history :: "message list"
  terminate :: bool
  in_queue :: "(real \<times> byte list option) list"
  device :: "byte list list"
  inflight :: 'i

text \<open>\<open>_LogSent\<close>, \<open>_LogReceived\<close> and \<open>_RecordInflight\<close>, lines 227 to 236.\<close>

definition LogSent :: "real \<Rightarrow> byte list option \<Rightarrow> string \<Rightarrow> 'i Driver \<Rightarrow> 'i Driver" where
  "LogSent ts m comment d = d\<lparr>raw_history := raw_history d @ [(ts, True, m, comment)]\<rparr>"

definition LogReceived :: "real \<Rightarrow> byte list \<Rightarrow> string \<Rightarrow> 'i Driver \<Rightarrow> 'i Driver" where
  "LogReceived ts m comment d = d\<lparr>raw_history := raw_history d @ [(ts, False, Some m, comment)]\<rparr>"

definition RecordInflight :: "message \<Rightarrow> 'i Driver \<Rightarrow> 'i Driver" where
  "RecordInflight m d = d\<lparr>history := history d @ [m]\<rparr>"

text \<open>
  \<open>_SendRaw\<close>, lines 288 to 302, under \<open>_send_lock\<close>: the log entry is made first, then
  the payload is written to the serial device. \<open>now\<close> is the value of \<open>time.time()\<close> read
  there. The device is the object given to the constructor, a serial port: its \<open>write\<close>
  refuses a payload that is \<open>None\<close> with \<open>TypeError\<close>, and it may fail with an I/O error;
  \<open>io\<close> is the exception, if any, that \<open>write\<close> or \<open>flush\<close> raises for a payload of bytes.
  An exception leaves the log entry in place, releases the lock and is passed on to the
  caller: the result is then the exception with the driver as it is left.
\<close>

definition SendRaw ::
  "real \<Rightarrow> byte list option \<Rightarrow> string \<Rightarrow> py_error option \<Rightarrow> 'i Driver \<Rightarrow>
     (py_error \<times> 'i Driver) + 'i Driver" where
  "SendRaw now pl comment io d =
     (let d1 = LogSent now pl comment d
      in case pl of
           None \<Rightarrow> Inl (TypeError, d1)
         | Some bs \<Rightarrow>
             (case io of
                Some e \<Rightarrow> Inl (e, d1)
              | None \<Rightarrow> Inr (d1\<lparr>device := device d1 @ [bs]\<rparr>)))"

text \<open>The local variables of \<open>_DriverReceivingThread\<close>.\<close>

record rx_state =
  buf :: "byte list"
  last_sof_arrival :: "real option"

definition rx_init :: rx_state where
  "rx_init = \<lparr>buf = [], last_sof_arrival = None\<rparr>"

text \<open>
  Lines 373 to 377: a frame \<open>m\<close> has been taken from the buffer \<open>b\<close>, and the in-flight
  object is asked for the next action.
\<close>

definition rx_frame ::
  "'i zmessage \<Rightarrow> real \<Rightarrow> byte list \<Rightarrow> byte list \<Rightarrow> 'i Driver \<Rightarrow>
     rx_state \<times> 'i Driver \<times> (byte list \<times> next_action) option" where
  "rx_frame zm ts m b d =
     (let rx' = \<lparr>buf = drop (length m) b, last_sof_arrival = None\<rparr>;
          ((action, comment), i') = NextActionForReceivedMessage zm ts m (inflight d);
          d' = LogReceived ts m comment (d\<lparr>inflight := i'\<rparr>)
      in (rx', d', Some (m, action)))"

text \<open>
  One pass through the loop body, lines 353 to 377, for the bytes \<open>r\<close> that
  \<open>self._device.read(1)\<close> returned and the time stamp \<open>ts\<close>. The result is an exception, or
  the local variables after the pass together with the frame \<open>m\<close> and its \<open>next_action\<close>
  when the pass reached line 375, and \<open>None\<close> when it ended in \<open>continue\<close>. \<open>if not m\<close>
  holds for \<open>None\<close> and for the empty byte string. The \<open>assert False\<close> of line 370 raises
  \<open>AssertionError\<close>.
\<close>

definition rx_receive ::
  "'i zmessage \<Rightarrow> byte list \<Rightarrow> real \<Rightarrow> rx_state \<Rightarrow> 'i Driver \<Rightarrow>
     py_error + (rx_state \<times> 'i Driver \<times> (byte list \<times> next_action) option)" where
  "rx_receive zm r ts rx d =
     (if r = [] then Inr (rx, d, None)
      else
        (let b = buf rx @ r;
             m0 = take 1 b
         in if hd m0 = SOF then
              (let lsa = (case last_sof_arrival rx of None \<Rightarrow> ts | Some t \<Rightarrow> t)
               in case ExtracRawMessage zm b of
                    Some (x # xs) \<Rightarrow> Inr (rx_frame zm ts (x # xs) b d)
                  | _ \<Rightarrow>
                      (if ts - lsa > 2 then Inl AssertionError
                       else Inr (\<lparr>buf = b, last_sof_arrival = Some lsa\<rparr>, d, None)))
            else Inr (rx_frame zm ts m0 b d)))"

text \<open>
  The branches on \<open>next_action\<close>, lines 378 to 386, on the driver as it is when the branch
  is taken. \<open>self._inflight.GetMessage().payload\<close> raises \<open>AttributeError\<close> when
  \<open>GetMessage()\<close> is \<open>None\<close>; an exception of \<open>_SendRaw\<close> is passed on, and then nothing
  is put into \<open>_in_queue\<close>. The result is the exception with the driver as it is left, or
  the driver after the branch.
\<close>

definition rx_act ::
  "'i zmessage \<Rightarrow> real \<Rightarrow> real \<Rightarrow> py_error option \<Rightarrow> byte list \<Rightarrow> next_action \<Rightarrow> 'i Driver \<Rightarrow>
     (py_error \<times> 'i Driver) + 'i Driver" where
  "rx_act zm ts now io m action d =
     (case action of
        DO_ACK \<Rightarrow> SendRaw now (Some RAW_MESSAGE_ACK) [] io d
      | DO_RETRY \<Rightarrow>
          (case GetMessage zm (inflight d) of
             None \<Rightarrow> Inl (AttributeError, d)
           | Some msg \<Rightarrow> SendRaw now (payload msg) ''re-try'' io d)
      | DO_PROPAGATE \<Rightarrow>
          (case SendRaw now (Some RAW_MESSAGE_ACK) [] io d of
             Inl x \<Rightarrow> Inl x
           | Inr d1 \<Rightarrow> Inr (d1\<lparr>in_queue := in_queue d1 @ [(ts, Some m)]\<rparr>))
      | DO_NOTHING \<Rightarrow> Inr d)"

text \<open>
  The whole loop body. The other threads run while the receiving thread is in it:
  \<open>others\<close> is what they do to the driver between the answer of
  \<open>NextActionForReceivedMessage\<close> and the branch on it, which is where the source has
  the comment on a race (lines 381 and 382).
\<close>

definition rx_iteration ::
  "'i zmessage \<Rightarrow> byte list \<Rightarrow> real \<Rightarrow> real \<Rightarrow> py_error option \<Rightarrow> ('i Driver \<Rightarrow> 'i Driver) \<Rightarrow>
     rx_state \<Rightarrow> 'i Driver \<Rightarrow> py_error + (rx_state \<times> 'i Driver)" where
  "rx_iteration zm r ts now io others rx d =
     (case rx_receive zm r ts rx d of
        Inl e \<Rightarrow> Inl e
      | Inr (rx', d', None) \<Rightarrow> Inr (rx', d')
      | Inr (rx', d', Some (m, action)) \<Rightarrow>
          (case rx_act zm ts now io m action (others d') of
             Inl (e, d'') \<Rightarrow> Inl e
           | Inr d'' \<Rightarrow> Inr (rx', d'')))"

text \<open>
  \<open>_DriverReceivingThread\<close> on a script of reads: each entry is the value of
  \<open>self._terminate\<close> at the head of the loop, the bytes read, the two clock readings, the
  exception of the device on a write, if any, and what the other threads do during the
  pass. The result is how the call ends (\<open>None\<close>: the script ran out with the loop still
  running).
\<close>

datatype fn_outcome = Returns | Raises py_error

fun DriverReceivingThread ::
  "'i zmessage \<Rightarrow>
   (bool \<times> byte list \<times> real \<times> real \<times> py_error option \<times> ('i Driver \<Rightarrow> 'i Driver)) list \<Rightarrow>
   rx_state \<Rightarrow> 'i Driver \<Rightarrow> fn_outcome option" where
  "DriverReceivingThread zm [] rx d = None"
| "DriverReceivingThread zm ((term, r, ts, now, io, others) # rest) rx d =
     (if term then Some Returns
      else (case rx_iteration zm r ts now io others rx d of
              Inl e \<Rightarrow> Some (Raises e)
            | Inr (rx', d') \<Rightarrow> DriverReceivingThread zm rest rx' d'))"

section \<open>Loop supervision: \<open>_run_child_thread\<close>\<close>

text \<open>
  \<open>except Exception\<close> catches every exception but those that derive from \<open>BaseException\<close>
  only, such as \<open>KeyboardInterrupt\<close>.
\<close>

fun is_Exception :: "py_error \<Rightarrow> bool" where
  "is_Exception KeyboardInterrupt = False"
| "is_Exception _ = True"

text \<open>
  Where a child thread is in \<open>_run_child_thread\<close>, lines 304 to 325, with the current
  \<open>delay\<close>: at the head of the loop, inside \<open>fn()\<close>, in \<open>time.sleep(delay)\<close> after a caught
  exception, waiting at the termination barrier, past it, or dead from an exception that
  was not caught.
\<close>

datatype child_pc =
    LoopHead real
  | InFn real
  | Sleeping real
  | AtBarrier
  | Terminated
  | Dead py_error

text \<open>
  What a child thread does next: read \<open>self._terminate\<close> at the head of the loop, return
  from \<open>fn()\<close>, leave \<open>fn()\<close> by an exception, or wake from the sleep.
\<close>

datatype child_event = Check bool | FnReturns | FnRaises py_error | Woke

fun child_step :: "child_event \<Rightarrow> child_pc \<Rightarrow> child_pc" where
  "child_step (Check term) (LoopHead delay) = (if term then AtBarrier else InFn delay)"
| "child_step FnReturns (InFn delay) = AtBarrier"
| "child_step (FnRaises e) (InFn delay) = (if is_Exception e then Sleeping delay else Dead e)"
| "child_step Woke (Sleeping delay) = LoopHead (if delay < 60 then delay * 2 else delay)"
| "child_step _ pc = pc"

text \<open>A child thread enters the loop with \<open>delay = .5\<close>.\<close>

definition child_start :: child_pc where
  "child_start = LoopHead (1 / 2)"

section \<open>The sending thread\<close>

text \<open>
  Where the sending thread is in \<open>_DriverSendingThread\<close>, lines 332 to 337: at the head of
  the loop, in \<open>self._out_queue.get()\<close>, about to call \<open>StartMessage\<close> for the message it
  took, about to record it, about to send it, in \<open>WaitForMessageCompletion\<close> for it,
  returned from the function, or out of the function by an exception, which
  \<open>_run_child_thread\<close> has yet to handle.
\<close>

datatype tx_pc =
    TxLoopHead
  | TxGet
  | TxStart message
  | TxRecord message
  | TxSend message
  | TxWait message
  | TxReturned
  | TxRaised py_error

text \<open>
  What an observer of the sending thread sees, in order: a message is taken from the
  queue; \<open>StartMessage\<close> is called for a message at a clock reading on a state of the
  in-flight object, and accepts or rejects; \<open>WaitForMessageCompletion\<close> returns on a state
  of the in-flight object; an exception ends the call of \<open>_DriverSendingThread\<close>;
  \<open>_run_child_thread\<close> calls the function again.
\<close>

datatype 'i tx_event =
    Dequeued message
  | Accepted message real 'i
  | Rejected message real 'i
  | WaitReturned message 'i
  | Raised py_error
  | Restarted

record 'i tx_sys =
  drv :: "'i Driver"
  tx_pc :: tx_pc
  tx_trace :: "'i tx_event list"

definition tx_start :: "'i Driver \<Rightarrow> 'i tx_sys" where
  "tx_start d = \<lparr>drv = d, tx_pc = TxLoopHead, tx_trace = []\<rparr>"

text \<open>The call of \<open>_DriverSendingThread\<close> ends with the exception \<open>e\<close>.\<close>

definition tx_raise :: "py_error \<Rightarrow> 'i tx_sys \<Rightarrow> 'i tx_sys" where
  "tx_raise e s = s\<lparr>tx_pc := TxRaised e, tx_trace := tx_trace s @ [Raised e]\<rparr>"

text \<open>
  One step of the sending thread; \<open>now\<close> is the clock reading of the step, for
  \<open>StartMessage(inflight, time.time())\<close> and for \<open>_SendRaw\<close>. \<open>fault\<close> is the
  exception, if any, that the callee of the step raises: \<open>StartMessage\<close>, the write to the
  device in \<open>_SendRaw\<close>, or \<open>WaitForMessageCompletion\<close>; the steps that call nothing that
  can raise ignore it. An exception ends the call. In the next step \<open>_run_child_thread\<close>,
  lines 311 to 320, has caught it if it is an \<open>Exception\<close>, has slept, and calls the
  function again unless \<open>_terminate\<close> is set; any other exception ends the thread. A
  step that cannot be taken (the queue is empty, the wait cannot return) leaves
  everything as it is.
\<close>

definition tx_step :: "'i zmessage \<Rightarrow> real \<Rightarrow> py_error option \<Rightarrow> 'i tx_sys \<Rightarrow> 'i tx_sys" where
  "tx_step zm now fault s =
     (case tx_pc s of
        TxLoopHead \<Rightarrow> s\<lparr>tx_pc := (if terminate (drv s) then TxReturned else TxGet)\<rparr>
      | TxGet \<Rightarrow>
          (case get (out_queue (drv s)) of
             None \<Rightarrow> s
           | Some (m, q') \<Rightarrow>
               s\<lparr>drv := (drv s)\<lparr>out_queue := q'\<rparr>, tx_pc := TxStart m,
                 tx_trace := tx_trace s @ [Dequeued m]\<rparr>)
      | TxStart m \<Rightarrow>
          (case fault of
             Some e \<Rightarrow> tx_raise e s
           | None \<Rightarrow>
               (let (ok, i') = StartMessage zm m now (inflight (drv s))
                in s\<lparr>drv := (drv s)\<lparr>inflight := i'\<rparr>,
                     tx_pc := (if ok then TxRecord m else TxLoopHead),
                     tx_trace := tx_trace s @
                       [if ok then Accepted m now (inflight (drv s))
                        else Rejected m now (inflight (drv s))]\<rparr>))
      | TxRecord m \<Rightarrow> s\<lparr>drv := RecordInflight m (drv s), tx_pc := TxSend m\<rparr>
      | TxSend m \<Rightarrow>
          (case SendRaw now (payload m) [] fault (drv s) of
             Inl (e, d') \<Rightarrow> tx_raise e (s\<lparr>drv := d'\<rparr>)
           | Inr d' \<Rightarrow> s\<lparr>drv := d', tx_pc := TxWait m\<rparr>)
      | TxWait m \<Rightarrow>
          (case fault of
             Some e \<Rightarrow> tx_raise e s
           | None \<Rightarrow>
               (case WaitForMessageCompletion zm (inflight (drv s)) of
                  None \<Rightarrow> s
                | Some i' \<Rightarrow>
                    s\<lparr>drv := (drv s)\<lparr>inflight := i'\<rparr>, tx_pc := TxLoopHead,
                      tx_trace := tx_trace s @ [WaitReturned m (inflight (drv s))]\<rparr>))
      | TxReturned \<Rightarrow> s
      | TxRaised e \<Rightarrow>
          (if \<not> is_Exception e then s
           else if terminate (drv s) then s\<lparr>tx_pc := TxReturned\<rparr>
           else s\<lparr>tx_pc := TxLoopHead, tx_trace := tx_trace s @ [Restarted]\<rparr>))"

text \<open>
  What can happen between two steps of the sending thread: a caller submits a message
  (\<open>Driver.SendMessage\<close>), or another thread changes the shared state in some way (the
  receiving thread works on the in-flight object and writes to the device, a callback
  sets \<open>_terminate\<close>).
\<close>

datatype 'i action =
    TxStep real "py_error option"
  | CallerSend message
  | Others "'i Driver \<Rightarrow> 'i Driver"

definition act :: "'i zmessage \<Rightarrow> 'i action \<Rightarrow> 'i tx_sys \<Rightarrow> 'i tx_sys" where
  "act zm a s =
     (case a of
        TxStep now fault \<Rightarrow> tx_step zm now fault s
      | CallerSend m \<Rightarrow> s\<lparr>drv := (drv s)\<lparr>out_queue := SendMessage m (out_queue (drv s))\<rparr>\<rparr>
      | Others f \<Rightarrow> s\<lparr>drv := f (drv s)\<rparr>)"




fun is_Raised :: "'i tx_event \<Rightarrow> bool" where
  "is_Raised (Raised e) = True"
| "is_Raised _ = False"








section \<open>Start-up and shut-down: the child threads, \<open>Terminate\<close> and the barrier\<close>

text \<open>The list \<open>child_threads\<close> of \<open>Driver.__init__\<close>, lines 190 to 194.\<close>

datatype child = TxThread | RxThread | ForwardingThread

definition child_threads :: "child list" where
  "child_threads = [TxThread, RxThread, ForwardingThread]"

text \<open>\<open>threading.Barrier(len(child_threads) + 1)\<close>, line 198.\<close>

definition barrier_parties :: nat where
  "barrier_parties = length child_threads + 1"

text \<open>
  Where the thread that calls \<open>Terminate\<close> is, lines 251 to 272: not in the call, in the
  second \<open>lock.acquire()\<close> (the marker and the message have been queued), in
  \<open>self._termination_barrier.wait()\<close>, or returned.
\<close>

datatype terminate_pc = NotCalled | AcquiringLock | WaitingAtBarrier | TerminateReturned

text \<open>
  The driver with its three child threads, each in \<open>_run_child_thread\<close>, and one caller
  of \<open>Terminate\<close>. \<open>lock_released\<close> says that the lock of \<open>Terminate\<close> has been released;
  \<open>waiting\<close> is the number of threads inside the barrier's \<open>wait()\<close>. \<open>taken\<close> lists the
  messages that the sending thread has taken from the outbound queue, which it hands to
  the in-flight object, and \<open>called\<close> the messages whose callback has been invoked, both
  in order. \<open>in_queue\<close> holds the entries put so far: which of them the forwarding
  thread has taken is not recorded.
\<close>

record 'i lifecycle =
  driver :: "'i Driver"
  children :: "child \<Rightarrow> child_pc"
  caller :: terminate_pc
  lock_released :: bool
  waiting :: nat
  taken :: "message list"
  called :: "message list"

text \<open>
  The driver as \<open>Driver.__init__\<close> leaves it, lines 176 to 183 and 207: the queues and
  the histories are empty and \<open>_terminate\<close> is false; \<open>i\<close> is the new in-flight object.
\<close>

definition Driver_init :: "'i \<Rightarrow> 'i Driver" where
  "Driver_init i =
     \<lparr>out_queue = MessageQueueOut_init, raw_history = [], history = [], terminate = False,
      in_queue = [], device = [], inflight = i\<rparr>"

definition lifecycle_init :: "'i \<Rightarrow> 'i lifecycle" where
  "lifecycle_init i =
     \<lparr>driver = Driver_init i, children = (\<lambda>c. child_start), caller = NotCalled,
      lock_released = False, waiting = 0, taken = [], called = []\<rparr>"

text \<open>
  Lines 263 to 266 of \<open>Terminate\<close>: the shutdown marker goes into \<open>_in_queue\<close> and the
  message with the callback \<open>cb\<close> into the outbound queue. The priority
  \<open>zmessage.LowestPriority()\<close> is not in \<open>driver.py\<close> and is a parameter.
\<close>

definition terminate_message :: "priority \<Rightarrow> message" where
  "terminate_message lowest =
     \<lparr>payload = None, priority = lowest, callback = SetTerminateAndReleaseLock, node = None\<rparr>"

definition Terminate_begin :: "priority \<Rightarrow> real \<Rightarrow> 'i Driver \<Rightarrow> 'i Driver" where
  "Terminate_begin lowest now d =
     d\<lparr>in_queue := in_queue d @ [(now, None)],
       out_queue := SendMessage (terminate_message lowest) (out_queue d)\<rparr>"

text \<open>
  The callback \<open>cb\<close> of \<open>Terminate\<close>, lines 259 to 261: it sets \<open>_terminate\<close> and releases
  the lock.
\<close>

definition cb :: "'i lifecycle \<Rightarrow> 'i lifecycle" where
  "cb s = s\<lparr>driver := (driver s)\<lparr>terminate := True\<rparr>, lock_released := True\<rparr>"

text \<open>
  The callback of a message is invoked: that of \<open>Terminate\<close> is \<open>cb\<close>; the callbacks of
  the other callers do not touch the driver.
\<close>

definition invoke :: "message \<Rightarrow> 'i lifecycle \<Rightarrow> 'i lifecycle" where
  "invoke m s =
     (let s1 = s\<lparr>called := called s @ [m]\<rparr>
      in if callback m = SetTerminateAndReleaseLock then cb s1 else s1)"

text \<open>
  \<open>threading.Barrier.wait\<close>: the arriving thread is counted; when the count reaches the
  number of parties, every thread in \<open>wait()\<close> is released and the barrier is empty again.
\<close>

definition release :: "'i lifecycle \<Rightarrow> 'i lifecycle" where
  "release s =
     s\<lparr>children := (\<lambda>c. if children s c = AtBarrier then Terminated else children s c),
       caller := (if caller s = WaitingAtBarrier then TerminateReturned else caller s),
       waiting := 0\<rparr>"

definition barrier_wait :: "'i lifecycle \<Rightarrow> 'i lifecycle" where
  "barrier_wait s =
     (let s1 = s\<lparr>waiting := waiting s + 1\<rparr>
      in if waiting s1 = barrier_parties then release s1 else s1)"

text \<open>
  The steps of the whole. A child thread takes a step of \<open>_run_child_thread\<close>: it reads
  the real value of \<open>_terminate\<close>; the functions of the sending and of the receiving
  thread return only once \<open>_terminate\<close> is set (their loops are \<open>while not
  self._terminate\<close>), the function of the forwarding thread only once the shutdown marker
  has been put into \<open>_in_queue\<close>; any of them may raise. The caller enters \<open>Terminate\<close> at
  clock reading \<open>now\<close>. Another caller submits a message with \<open>SendMessage\<close>: its callback
  is not \<open>cb\<close>, which is local to the call of \<open>Terminate\<close>. The sending thread, inside its
  function, takes the next message from the outbound queue (line 333) and hands it to
  the in-flight object (line 334). The callback of a message is invoked: a callback is
  reached only through its message, which goes from \<open>SendMessage\<close> into the queue and from
  there, by the sending thread alone, to the in-flight object; so only the callback of a
  message that the sending thread has taken can be invoked. When and how often
  \<open>zmessage\<close> invokes it is left open. The second \<open>lock.acquire()\<close> of \<open>Terminate\<close>
  succeeds once the lock has been released, and the caller goes to the barrier.
\<close>

datatype lifecycle_event =
    Child child child_event
  | CallTerminate real
  | Submit message
  | TxDequeue
  | RunCallback message
  | LockAcquired

definition child_allowed :: "'i lifecycle \<Rightarrow> child \<Rightarrow> child_event \<Rightarrow> bool" where
  "child_allowed s c ev =
     (case ev of
        Check b \<Rightarrow> b = terminate (driver s)
      | FnReturns \<Rightarrow>
          (if c = ForwardingThread then None \<in> snd ` set (in_queue (driver s))
           else terminate (driver s))
      | _ \<Rightarrow> True)"

definition lifecycle_step :: "priority \<Rightarrow> lifecycle_event \<Rightarrow> 'i lifecycle \<Rightarrow> 'i lifecycle" where
  "lifecycle_step lowest e s =
     (case e of
        Child c ev \<Rightarrow>
          (if child_allowed s c ev then
             (let pc' = child_step ev (children s c);
                  s1 = s\<lparr>children := (children s)(c := pc')\<rparr>
              in if pc' = AtBarrier \<and> children s c \<noteq> AtBarrier then barrier_wait s1 else s1)
           else s)
      | CallTerminate now \<Rightarrow>
          (if caller s = NotCalled
           then s\<lparr>driver := Terminate_begin lowest now (driver s), caller := AcquiringLock\<rparr>
           else s)
      | Submit m \<Rightarrow>
          (if callback m \<noteq> SetTerminateAndReleaseLock
           then s\<lparr>driver := (driver s)\<lparr>out_queue := SendMessage m (out_queue (driver s))\<rparr>\<rparr>
           else s)
      | TxDequeue \<Rightarrow>
          (case children s TxThread of
             InFn delay \<Rightarrow>
               (case get (out_queue (driver s)) of
                  None \<Rightarrow> s
                | Some (m, q') \<Rightarrow>
                    s\<lparr>driver := (driver s)\<lparr>out_queue := q'\<rparr>, taken := taken s @ [m]\<rparr>)
           | _ \<Rightarrow> s)
      | RunCallback m \<Rightarrow> (if m \<in> set (taken s) then invoke m s else s)
      | LockAcquired \<Rightarrow>
          (if caller s = AcquiringLock \<and> lock_released s
           then barrier_wait (s\<lparr>caller := WaitingAtBarrier\<rparr>)
           else s))"

text \<open>The number of threads that are inside \<open>wait()\<close>.\<close>

definition at_barrier :: "'i lifecycle \<Rightarrow> nat" where
  "at_barrier s =
     length (filter (\<lambda>c. children s c = AtBarrier) child_threads) +
     (if caller s = WaitingAtBarrier then 1 else 0)"

text \<open>The messages in the outbound queue.\<close>

definition waiting_messages :: "'i lifecycle \<Rightarrow> message set" where
  "waiting_messages s = snd ` set (q (out_queue (driver s)))"

text \<open>
  What holds in every state: the barrier counts the threads inside it, it has not
  tripped while fewer than all four are there, nobody is past it unless everybody is, and
  the caller has gone to it only after \<open>_terminate\<close> was set.
\<close>

definition lifecycle_inv :: "'i lifecycle \<Rightarrow> bool" where
  "lifecycle_inv s \<longleftrightarrow>
     waiting s = at_barrier s \<and> waiting s < barrier_parties \<and>
     (caller s = TerminateReturned \<or> (\<exists>c. children s c = Terminated) \<longrightarrow>
        caller s = TerminateReturned \<and> (\<forall>c. children s c = Terminated)) \<and>
     (caller s = WaitingAtBarrier \<or> caller s = TerminateReturned \<longrightarrow> terminate (driver s)) \<and>
     (lock_released s \<longrightarrow> terminate (driver s))"


text \<open>
  What holds of the message of \<open>Terminate\<close> in every state: once \<open>Terminate\<close> has been
  entered, the shutdown marker has been put into \<open>_in_queue\<close> and the message is in the
  outbound queue or has been taken by the sending thread; no other message in the queue
  or taken carries the callback \<open>cb\<close>; and \<open>_terminate\<close> is set, and the lock released,
  only when the callback of that message has been invoked.
\<close>

definition message_inv :: "priority \<Rightarrow> 'i lifecycle \<Rightarrow> bool" where
  "message_inv lowest s \<longleftrightarrow>
     (caller s \<noteq> NotCalled \<longrightarrow>
        None \<in> snd ` set (in_queue (driver s)) \<and>
        terminate_message lowest \<in> waiting_messages s \<union> set (taken s)) \<and>
     (\<forall>m \<in> waiting_messages s \<union> set (taken s).
        callback m = SetTerminateAndReleaseLock \<longrightarrow>
        m = terminate_message lowest \<and> caller s \<noteq> NotCalled) \<and>
     (terminate (driver s) \<or> lock_released s \<longrightarrow>
        terminate_message lowest \<in> set (called s) \<and> caller s \<noteq> NotCalled)"

section \<open>The in-flight protocol state machine, from the spec\<close>

text \<open>
  Modelled from the spec: \<open>zmessage.InflightMessage\<close> is not in \<open>driver.py\<close>. Section 3 of
  the spec gives the record (message, start time, state, retry count, last-collision
  time; it exists only between dequeue and resolution), section 4.2 the states
  \<open>Idle\<close>, \<open>Sent\<close>, \<open>AwaitingAck\<close>, \<open>AwaitingResponse\<close> and \<open>Resolved\<close> with the outcomes
  success, failed and timed out. \<open>Idle\<close> is the absence of a record. The spec names no
  operation that moves \<open>Sent\<close> to \<open>AwaitingAck\<close>, so an acknowledge byte is taken in both.
\<close>

datatype in_state = Sent | AwaitingAck | AwaitingResponse

datatype resolution = Success | Failed | TimedOut

record InflightRecord =
  in_message :: message
  start_time :: real
  in_state :: in_state
  retry_count :: nat
  last_collision :: "real option"

text \<open>
  Modelled from the spec: the in-flight object holds at most one record; \<open>resolved\<close> lists, in
  order, the messages that reached a terminal resolution, each with its outcome. The
  callback of a message fires exactly once, at its resolution (section 3), so \<open>resolved\<close>
  is also the list of the callbacks invoked so far.
\<close>

record InflightMessage =
  in_record :: "InflightRecord option"
  resolved :: "(message \<times> resolution) list"

definition InflightMessage_init :: InflightMessage where
  "InflightMessage_init = \<lparr>in_record = None, resolved = []\<rparr>"

text \<open>
  Modelled from the spec: what the spec leaves to the implementation is a parameter, namely
  the fixed maximum retry count, the optional expected-reply predicate of a message, and
  the frame codec of section 4.1.
\<close>

record spec_params =
  max_retries :: nat
  expected_reply :: "message \<Rightarrow> (byte list \<Rightarrow> bool) option"
  extract_frame :: "byte list \<Rightarrow> byte list option"

definition resolve :: "resolution \<Rightarrow> InflightRecord \<Rightarrow> InflightMessage \<Rightarrow> InflightMessage" where
  "resolve outcome r i = i\<lparr>in_record := None, resolved := resolved i @ [(in_message r, outcome)]\<rparr>"

text \<open>
  Modelled from the spec: \<open>StartMessage(msg, now)\<close> moves \<open>Idle\<close> to \<open>Sent\<close> only if the object
  is \<open>Idle\<close>, and returns whether the message was accepted.
\<close>

definition StartMessage_spec :: "message \<Rightarrow> real \<Rightarrow> InflightMessage \<Rightarrow> bool \<times> InflightMessage" where
  "StartMessage_spec m now i =
     (case in_record i of
        None \<Rightarrow>
          (True, i\<lparr>in_record := Some \<lparr>in_message = m, start_time = now, in_state = Sent,
                                      retry_count = 0, last_collision = None\<rparr>\<rparr>)
      | Some r \<Rightarrow> (False, i))"

text \<open>
  Modelled from the spec: \<open>OnReceive(now, frame)\<close> of section 4.2, which \<open>driver.py\<close> calls
  as \<open>NextActionForReceivedMessage\<close>. An acknowledge byte moves the record to
  \<open>AwaitingResponse\<close>, or resolves it with success if the message expects no further reply.
  A negative-acknowledge or collision byte increments the retry counter and answers
  retry, unless the retries are exhausted: then the record is resolved as failed. A data
  frame that satisfies the expected-reply predicate answers propagate and resolves with
  success; any other data frame answers propagate and changes nothing. With no record
  there is no retry counter: a control byte is then ignored and a data frame propagated.
  The comments are for diagnostics only.
\<close>

definition OnReceive ::
  "spec_params \<Rightarrow> real \<Rightarrow> byte list \<Rightarrow> InflightMessage \<Rightarrow> (next_action \<times> string) \<times> InflightMessage" where
  "OnReceive P now frame i =
     (case in_record i of
        None \<Rightarrow>
          (if frame = [ACK] \<or> frame = [NAK] \<or> frame = [CAN] then ((DO_NOTHING, ''stray''), i)
           else ((DO_PROPAGATE, ''unsolicited''), i))
      | Some r \<Rightarrow>
          (if frame = [ACK] then
             (if in_state r = AwaitingResponse then ((DO_NOTHING, ''stray''), i)
              else (case expected_reply P (in_message r) of
                      None \<Rightarrow> ((DO_NOTHING, ''ack''), resolve Success r i)
                    | Some f \<Rightarrow>
                        ((DO_NOTHING, ''ack''),
                         i\<lparr>in_record := Some (r\<lparr>in_state := AwaitingResponse\<rparr>)\<rparr>)))
           else if frame = [NAK] \<or> frame = [CAN] then
             (if retry_count r < max_retries P then
                ((DO_RETRY, if frame = [NAK] then ''nak'' else ''can''),
                 i\<lparr>in_record := Some (r\<lparr>retry_count := retry_count r + 1,
                                          last_collision := (if frame = [CAN] then Some now
                                                             else last_collision r)\<rparr>)\<rparr>)
              else ((DO_NOTHING, ''failed''), resolve Failed r i))
           else
             (case expected_reply P (in_message r) of
                None \<Rightarrow> ((DO_PROPAGATE, ''unsolicited''), i)
              | Some f \<Rightarrow>
                  (if f frame then ((DO_PROPAGATE, ''reply''), resolve Success r i)
                   else ((DO_PROPAGATE, ''unsolicited''), i)))))"

text \<open>
  Modelled from the spec: \<open>WaitForCompletion()\<close> blocks the transmit loop until the record
  is resolved; its internal deadline forces the resolution \<open>TimedOut\<close>.
\<close>

definition WaitForCompletion_spec :: "InflightMessage \<Rightarrow> InflightMessage option" where
  "WaitForCompletion_spec i = (if in_record i = None then Some i else None)"

definition deadline :: "InflightMessage \<Rightarrow> InflightMessage" where
  "deadline i = (case in_record i of None \<Rightarrow> i | Some r \<Rightarrow> resolve TimedOut r i)"

text \<open>
  Modelled from the spec: the current in-flight message, or none (section 6; the docstring
  of \<open>Driver.GetInFlightMessage\<close> says the same of \<open>GetMessage()\<close>).
\<close>

definition GetMessage_spec :: "InflightMessage \<Rightarrow> message option" where
  "GetMessage_spec i = map_option in_message (in_record i)"

definition zm_spec :: "spec_params \<Rightarrow> InflightMessage zmessage" where
  "zm_spec P =
     \<lparr>ExtracRawMessage = extract_frame P,
      NextActionForReceivedMessage = OnReceive P,
      GetMessage = GetMessage_spec,
      StartMessage = StartMessage_spec,
      WaitForMessageCompletion = WaitForCompletion_spec\<rparr>"

section \<open>The sending and the receiving thread together\<close>

text \<open>
  The message of \<open>WaitUntilAllPreviousMessagesHaveBeenHandled\<close>, lines 245 and 246: no
  payload, the priority \<open>zmessage.LowestPriority()\<close> (a parameter), a callback that
  releases the lock \<open>k\<close> created by the call, and no node. The call returns once that
  callback has run.
\<close>

definition quiesce_message :: "priority \<Rightarrow> nat \<Rightarrow> message" where
  "quiesce_message lowest k =
     \<lparr>payload = None, priority = lowest, callback = ReleaseLock k, node = None\<rparr>"

text \<open>
  The callbacks of the messages resolved since the list of resolutions had length \<open>n\<close> have
  run: that of \<open>Terminate\<close> sets \<open>_terminate\<close>.
\<close>

definition fire :: "nat \<Rightarrow> InflightMessage Driver \<Rightarrow> InflightMessage Driver" where
  "fire n d =
     (if \<exists>e \<in> set (drop n (resolved (inflight d))). callback (fst e) = SetTerminateAndReleaseLock
      then d\<lparr>terminate := True\<rparr> else d)"

text \<open>
  The driver with the sending thread and the receiving thread, each under
  \<open>_run_child_thread\<close>. The receiving thread is either between two passes or between
  line 377 and line 378 of a pass, with a frame and its \<open>next_action\<close> pending. An
  exception ends its call and the supervision starts it again, with an empty buffer;
  \<open>rx_faults\<close> lists these exceptions. The exceptions of the sending thread and its
  restarts are in its trace. \<open>submitted\<close> lists the messages given to \<open>SendMessage\<close>, in
  order.
\<close>

record sys_state =
  tx_side :: "InflightMessage tx_sys"
  rx_side :: rx_state
  rx_pending :: "(real \<times> byte list \<times> next_action) option"
  rx_faults :: "py_error list"
  submitted :: "message list"

definition sys_init :: sys_state where
  "sys_init =
     \<lparr>tx_side = tx_start \<lparr>out_queue = MessageQueueOut_init, raw_history = [], history = [],
                            terminate = False, in_queue = [], device = [],
                            inflight = InflightMessage_init\<rparr>,
      rx_side = rx_init, rx_pending = None, rx_faults = [], submitted = []\<rparr>"

text \<open>
  The steps: the sending thread takes a step, in which its callee may raise; a caller
  submits a message; the receiving thread reads bytes and takes a pass up to line 377; it
  takes the branch of lines 378 to 386, in which the write to the device may raise; the
  deadline of \<open>WaitForCompletion\<close> passes while the sending thread waits. The receiving
  thread may take a pass whenever it is between passes: that it stops once \<open>_terminate\<close>
  is set only removes runs.
\<close>

datatype sys_action =
    Tx real "py_error option"
  | Send message
  | Rx "byte list" real
  | RxAct real "py_error option"
  | Deadline

definition sys_step :: "spec_params \<Rightarrow> sys_action \<Rightarrow> sys_state \<Rightarrow> sys_state" where
  "sys_step P a s =
     (let t = tx_side s; d = drv t; n = length (resolved (inflight d))
      in case a of
           Tx now fault \<Rightarrow> s\<lparr>tx_side := tx_step (zm_spec P) now fault t\<rparr>
         | Send m \<Rightarrow>
             s\<lparr>tx_side := act (zm_spec P) (CallerSend m) t, submitted := submitted s @ [m]\<rparr>
         | Rx r ts \<Rightarrow>
             (case rx_pending s of
                Some p \<Rightarrow> s
              | None \<Rightarrow>
                  (case rx_receive (zm_spec P) r ts (rx_side s) d of
                     Inl e \<Rightarrow> s\<lparr>rx_faults := rx_faults s @ [e], rx_side := rx_init\<rparr>
                   | Inr (rx', d', pend) \<Rightarrow>
                       s\<lparr>rx_side := rx', tx_side := t\<lparr>drv := fire n d'\<rparr>,
                         rx_pending := map_option (\<lambda>(m, a). (ts, m, a)) pend\<rparr>))
         | RxAct now io \<Rightarrow>
             (case rx_pending s of
                None \<Rightarrow> s
              | Some (ts, m, a) \<Rightarrow>
                  (case rx_act (zm_spec P) ts now io m a d of
                     Inl (e, d') \<Rightarrow>
                       s\<lparr>tx_side := t\<lparr>drv := d'\<rparr>, rx_faults := rx_faults s @ [e],
                         rx_side := rx_init, rx_pending := None\<rparr>
                   | Inr d' \<Rightarrow> s\<lparr>tx_side := t\<lparr>drv := d'\<rparr>, rx_pending := None\<rparr>))
         | Deadline \<Rightarrow>
             (case tx_pc t of
                TxWait m \<Rightarrow> s\<lparr>tx_side := t\<lparr>drv := fire n (d\<lparr>inflight := deadline (inflight d)\<rparr>)\<rparr>\<rparr>
              | _ \<Rightarrow> s))"

text \<open>The messages that a list of steps submits.\<close>

fun sent_by :: "sys_action list \<Rightarrow> message list" where
  "sent_by [] = []"
| "sent_by (Send m # as) = m # sent_by as"
| "sent_by (a # as) = sent_by as"

text \<open>
  A list of steps is a run with the lowest priority \<open>lowest\<close> when the level of \<open>lowest\<close> is
  not one of the fairness-managed levels, no submitted message has a higher level, and the
  submitted messages are different objects.
\<close>

definition well_formed :: "priority \<Rightarrow> sys_action list \<Rightarrow> bool" where
  "well_formed lowest as \<longleftrightarrow>
     level_of lowest \<noteq> 2 \<and> level_of lowest \<noteq> 3 \<and>
     (\<forall>m \<in> set (sent_by as). level_of (priority m) \<le> level_of lowest) \<and>
     distinct (sent_by as)"

text \<open>The messages whose callback has been invoked.\<close>

definition called_back :: "sys_state \<Rightarrow> message set" where
  "called_back s = fst ` set (resolved (inflight (drv (tx_side s))))"

text \<open>The messages submitted strictly before the message \<open>b\<close>.\<close>

definition before :: "message \<Rightarrow> message list \<Rightarrow> message list" where
  "before b ms = takeWhile (\<lambda>m. m \<noteq> b) ms"

subsection \<open>Claim C2: \<open>get\<close> and the fairness floors\<close>

text \<open>
  Level 2 is served as the claim says: a \<open>get\<close> that takes a level-2 entry sets \<open>_hi_min\<close>
  to the entry's counter.
\<close>

lemma get_high_floor:
  assumes "q_get (q s) = Some (((2, c, d), m), rest)"
  shows "\<exists>s'. get s = Some (m, s') \<and> hi_min s' = c"
  using assms by (simp add: get_def Let_def level_of_def count_of_def)

text \<open>No \<open>get\<close> ever writes \<open>_lo_min\<close>: the branch that would is guarded by \<open>level == 2\<close>.\<close>

lemma get_keeps_lo_min: "get s = Some (m, s') \<Longrightarrow> lo_min s' = lo_min s"
  by (auto simp: get_def Let_def split: option.splits prod.splits if_splits)

text \<open>
  Claim C2 says that a \<open>get\<close> that removes an entry of level 3 advances the floor of
  level 3 to the served counter. On the queue holding two low-priority messages for
  destination 7, \<open>get\<close> serves the entry with counter 1 and leaves \<open>_lo_min\<close> at 0.
\<close>

theorem get_low_floor_not_advanced:
  "q_get (q (fold SendMessage [low_msg 7 [1], low_msg 7 [2]] MessageQueueOut_init)) =
     Some (((3, 1, 7), low_msg 7 [1]), [((3, 2, 7), low_msg 7 [2])]) \<and>
   map_option (\<lambda>(m, s). (m, lo_min s))
     (get (fold SendMessage [low_msg 7 [1], low_msg 7 [2]] MessageQueueOut_init)) =
     Some (low_msg 7 [1], 0)"
  by (simp add: get_def put_def q_get_def MessageQueueOut_init_def level_of_def node_of_def
      count_of_def Let_def SendMessage_def low_msg_def)

section \<open>Properties of the outbound queue\<close>

lemma q_get_None: "q_get es = None \<longleftrightarrow> es = []"
  by (simp add: q_get_def Let_def)

lemma q_get_Some:
  assumes "q_get es = Some (e, rest)"
  shows "e \<in> set es" and "rest = remove1 e es" and "\<forall>x \<in> set es. fst e \<le> fst x"
proof -
  from assms have ne: "es \<noteq> []" and e: "e = arg_min_list fst es" and r: "rest = remove1 e es"
    by (auto simp: q_get_def Let_def split: if_splits)
  show "e \<in> set es" using ne e by (simp add: arg_min_list_in)
  show "rest = remove1 e es" by (rule r)
  have "fst e = Min (fst ` set es)" using ne e by (simp add: f_arg_min_list_f)
  then show "\<forall>x \<in> set es. fst e \<le> fst x" by simp
qed

lemma get_None: "get s = None \<longleftrightarrow> q s = []"
proof (cases "q s = []")
  case True
  then show ?thesis by (simp add: get_def q_get_def)
next
  case False
  then show ?thesis by (simp add: get_def q_get_def Let_def split: prod.splits)
qed

lemma get_Some_q:
  "get s = Some (m, s') \<Longrightarrow> \<exists>p. q_get (q s) = Some ((p, m), q s')"
  by (auto simp: get_def Let_def split: option.splits prod.splits if_splits)

lemma gets_drain: "gets n s = map snd (drain n (q s))"
proof (induction n arbitrary: s)
  case 0
  show ?case by simp
next
  case (Suc n)
  show ?case
  proof (cases "get s")
    case None
    then have "q s = []" by (simp add: get_None)
    with None show ?thesis by (simp add: q_get_def)
  next
    case (Some r)
    obtain m s' where r: "r = (m, s')" by (cases r)
    from Some r have "get s = Some (m, s')" by simp
    then have "\<exists>p. q_get (q s) = Some ((p, m), q s')"
      by (rule get_Some_q)
    then obtain p where "q_get (q s) = Some ((p, m), q s')" ..
    with Some r Suc.IH [of s'] show ?thesis by simp
  qed
qed

lemma drain_subset: "set (drain n es) \<subseteq> set es"
proof (induction n arbitrary: es)
  case 0
  show ?case by simp
next
  case (Suc n)
  show ?case
  proof (cases "q_get es")
    case None
    then show ?thesis by simp
  next
    case (Some r)
    obtain e rest where r: "r = (e, rest)" by (cases r)
    from Some r have "e \<in> set es" "rest = remove1 e es" using q_get_Some by blast+
    moreover have "set (drain n rest) \<subseteq> set rest" by (rule Suc.IH)
    moreover have "set (remove1 e es) \<subseteq> set es" by (rule set_remove1_subset)
    ultimately show ?thesis using Some r by auto
  qed
qed

lemma drain_sorted: "sorted (map fst (drain n es))"
proof (induction n arbitrary: es)
  case 0
  show ?case by simp
next
  case (Suc n)
  show ?case
  proof (cases "q_get es")
    case None
    then show ?thesis by simp
  next
    case (Some r)
    obtain e rest where r: "r = (e, rest)" by (cases r)
    from Some r have rest: "rest = remove1 e es" and least: "\<forall>x \<in> set es. fst e \<le> fst x"
      using q_get_Some by blast+
    have "set (drain n rest) \<subseteq> set es"
      using drain_subset [of n rest] set_remove1_subset [of e es] rest by blast
    with least have "\<forall>x \<in> set (drain n rest). fst e \<le> fst x" by blast
    with Suc.IH [of rest] Some r show ?thesis by simp
  qed
qed

lemma drain_mset: "length es \<le> n \<Longrightarrow> mset (drain n es) = mset es"
proof (induction n arbitrary: es)
  case 0
  then show ?case by simp
next
  case (Suc n)
  show ?case
  proof (cases "q_get es")
    case None
    then have "es = []" by (simp add: q_get_None)
    then show ?thesis by (simp add: q_get_def)
  next
    case (Some r)
    obtain e rest where r: "r = (e, rest)" by (cases r)
    from Some r have e: "e \<in> set es" and rest: "rest = remove1 e es"
      using q_get_Some by blast+
    from e rest Suc.prems have "length rest \<le> n" by (simp add: length_remove1)
    then have "mset (drain n rest) = mset rest" by (rule Suc.IH)
    with e rest Some r show ?thesis by (simp add: insert_DiffM)
  qed
qed

lemma put_high:
  "put (2, c, d) m s =
     (let s1 = (if q s = []
               then s\<lparr>lo_counts := (\<lambda>_. 0), hi_counts := (\<lambda>_. 0), lo_min := 0, hi_min := 0\<rparr>
               else s);
          n = max (hi_counts s1 d + 1) (hi_min s1)
      in s1\<lparr>hi_counts := (hi_counts s1)(d := n),
            per_node_size := (per_node_size s1)(d := per_node_size s1 d + 1),
            q := q s1 @ [((2, n, d), m)]\<rparr>)"
  by (simp add: put_def Let_def level_of_def node_of_def)

lemma put_low:
  "put (3, c, d) m s =
     (let s1 = (if q s = []
               then s\<lparr>lo_counts := (\<lambda>_. 0), hi_counts := (\<lambda>_. 0), lo_min := 0, hi_min := 0\<rparr>
               else s);
          n = max (lo_counts s1 d + 1) (lo_min s1)
      in s1\<lparr>lo_counts := (lo_counts s1)(d := n),
            per_node_size := (per_node_size s1)(d := per_node_size s1 d + 1),
            q := q s1 @ [((3, n, d), m)]\<rparr>)"
  by (simp add: put_def Let_def level_of_def node_of_def)

lemma put_other:
  "l \<noteq> 2 \<Longrightarrow> l \<noteq> 3 \<Longrightarrow>
   put (l, c, d) m s =
     (let s1 = (if q s = []
               then s\<lparr>lo_counts := (\<lambda>_. 0), hi_counts := (\<lambda>_. 0), lo_min := 0, hi_min := 0\<rparr>
               else s)
      in s1\<lparr>counter := counter s1 + 1,
            per_node_size := (per_node_size s1)(d := per_node_size s1 d + 1),
            q := q s1 @ [((l, counter s1, d), m)]\<rparr>)"
  by (simp add: put_def Let_def level_of_def node_of_def)

lemma batch_inv_reset:
  "q s = [] \<Longrightarrow> batch_inv (s\<lparr>lo_counts := (\<lambda>_. 0), hi_counts := (\<lambda>_. 0), lo_min := 0, hi_min := 0\<rparr>)"
  by (simp add: batch_inv_def keys_def)

lemma keys_enqueue: "keys (enqueue p n m s) = insert (level_of p, n, node_of p) (keys s)"
  by (simp add: keys_def enqueue_def)

lemma batch_inv_high:
  assumes "batch_inv s"
  shows "batch_inv (enqueue (2, c, d) (hi_counts s d + 1) m (s\<lparr>hi_counts := (hi_counts s)(d := hi_counts s d + 1)\<rparr>))"
proof -
  let ?n = "hi_counts s d + 1"
  let ?s = "enqueue (2, c, d) ?n m (s\<lparr>hi_counts := (hi_counts s)(d := ?n)\<rparr>)"
  have k: "keys ?s = insert (2, ?n, d) (keys s)"
    by (simp add: keys_enqueue level_of_def node_of_def) (simp add: keys_def)
  have fresh: "(2, ?n, d) \<notin> keys s"
    using assms by (simp add: batch_inv_def)
  have pos: "0 \<le> hi_counts s d"
    using assms by (simp add: batch_inv_def)
  have f: "hi_min ?s = 0" "lo_min ?s = 0" "lo_counts ?s = lo_counts s" "counter ?s = counter s"
    "hi_counts ?s = (hi_counts s)(d := ?n)" "q ?s = q s @ [((2, ?n, d), m)]"
    using assms by (simp_all add: enqueue_def batch_inv_def level_of_def node_of_def)
  have 1: "\<forall>d'. 0 \<le> hi_counts ?s d'"
    using assms pos by (simp add: f batch_inv_def)
  have 2: "\<forall>d'. 0 \<le> lo_counts ?s d'"
    using assms by (simp add: f batch_inv_def)
  have 3: "\<forall>c' d'. (2, c', d') \<in> keys ?s \<longleftrightarrow> 1 \<le> c' \<and> c' \<le> hi_counts ?s d'"
  proof (intro allI)
    fix c' d'
    have old: "(2, c', d') \<in> keys s \<longleftrightarrow> 1 \<le> c' \<and> c' \<le> hi_counts s d'"
      using assms by (simp add: batch_inv_def)
    show "(2, c', d') \<in> keys ?s \<longleftrightarrow> 1 \<le> c' \<and> c' \<le> hi_counts ?s d'"
      unfolding k f using old pos by (cases "d' = d") auto
  qed
  have 4: "\<forall>c' d'. (3, c', d') \<in> keys ?s \<longleftrightarrow> 1 \<le> c' \<and> c' \<le> lo_counts ?s d'"
    unfolding k f using assms by (simp add: batch_inv_def)
  have 5: "\<forall>l c' d'. (l, c', d') \<in> keys ?s \<longrightarrow> l \<noteq> 2 \<longrightarrow> l \<noteq> 3 \<longrightarrow> c' < counter ?s"
    unfolding k f using assms by (simp add: batch_inv_def)
  have 6: "distinct (map fst (q ?s))"
    unfolding f using assms fresh by (simp add: batch_inv_def keys_def)
  show ?thesis
    unfolding batch_inv_def using f(1,2) 1 2 3 4 5 6 by blast
qed


lemma batch_inv_low:
  assumes "batch_inv s"
  shows "batch_inv (enqueue (3, c, d) (lo_counts s d + 1) m (s\<lparr>lo_counts := (lo_counts s)(d := lo_counts s d + 1)\<rparr>))"
proof -
  let ?n = "lo_counts s d + 1"
  let ?s = "enqueue (3, c, d) ?n m (s\<lparr>lo_counts := (lo_counts s)(d := ?n)\<rparr>)"
  have k: "keys ?s = insert (3, ?n, d) (keys s)"
    by (simp add: keys_enqueue level_of_def node_of_def) (simp add: keys_def)
  have fresh: "(3, ?n, d) \<notin> keys s"
    using assms by (simp add: batch_inv_def)
  have pos: "0 \<le> lo_counts s d"
    using assms by (simp add: batch_inv_def)
  have f: "hi_min ?s = 0" "lo_min ?s = 0" "hi_counts ?s = hi_counts s" "counter ?s = counter s"
    "lo_counts ?s = (lo_counts s)(d := ?n)" "q ?s = q s @ [((3, ?n, d), m)]"
    using assms by (simp_all add: enqueue_def batch_inv_def level_of_def node_of_def)
  have 1: "\<forall>d'. 0 \<le> hi_counts ?s d'"
    using assms by (simp add: f batch_inv_def)
  have 2: "\<forall>d'. 0 \<le> lo_counts ?s d'"
    using assms pos by (simp add: f batch_inv_def)
  have 3: "\<forall>c' d'. (2, c', d') \<in> keys ?s \<longleftrightarrow> 1 \<le> c' \<and> c' \<le> hi_counts ?s d'"
    unfolding k f using assms by (simp add: batch_inv_def)
  have 4: "\<forall>c' d'. (3, c', d') \<in> keys ?s \<longleftrightarrow> 1 \<le> c' \<and> c' \<le> lo_counts ?s d'"
  proof (intro allI)
    fix c' d'
    have old: "(3, c', d') \<in> keys s \<longleftrightarrow> 1 \<le> c' \<and> c' \<le> lo_counts s d'"
      using assms by (simp add: batch_inv_def)
    show "(3, c', d') \<in> keys ?s \<longleftrightarrow> 1 \<le> c' \<and> c' \<le> lo_counts ?s d'"
      unfolding k f using old pos by (cases "d' = d") auto
  qed
  have 5: "\<forall>l c' d'. (l, c', d') \<in> keys ?s \<longrightarrow> l \<noteq> 2 \<longrightarrow> l \<noteq> 3 \<longrightarrow> c' < counter ?s"
    unfolding k f using assms by (simp add: batch_inv_def)
  have 6: "distinct (map fst (q ?s))"
    unfolding f using assms fresh by (simp add: batch_inv_def keys_def)
  show ?thesis
    unfolding batch_inv_def using f(1,2) 1 2 3 4 5 6 by blast
qed

lemma batch_inv_other:
  assumes "batch_inv s" and l: "l \<noteq> 2" "l \<noteq> 3"
  shows "batch_inv (enqueue (l, c, d) (counter s) m (s\<lparr>counter := counter s + 1\<rparr>))"
proof -
  let ?n = "counter s"
  let ?s = "enqueue (l, c, d) ?n m (s\<lparr>counter := counter s + 1\<rparr>)"
  have k: "keys ?s = insert (l, ?n, d) (keys s)"
    by (simp add: keys_enqueue level_of_def node_of_def) (simp add: keys_def)
  have below: "\<forall>l' c' d'. (l', c', d') \<in> keys s \<longrightarrow> l' \<noteq> 2 \<longrightarrow> l' \<noteq> 3 \<longrightarrow> c' < counter s"
    using assms by (simp add: batch_inv_def)
  then have fresh: "(l, ?n, d) \<notin> keys s"
    using l by auto
  have f: "hi_min ?s = 0" "lo_min ?s = 0" "hi_counts ?s = hi_counts s" "counter ?s = counter s + 1"
    "lo_counts ?s = lo_counts s" "q ?s = q s @ [((l, ?n, d), m)]"
    using assms by (simp_all add: enqueue_def batch_inv_def level_of_def node_of_def)
  have 1: "\<forall>d'. 0 \<le> hi_counts ?s d'"
    using assms by (simp add: f batch_inv_def)
  have 2: "\<forall>d'. 0 \<le> lo_counts ?s d'"
    using assms by (simp add: f batch_inv_def)
  have 3: "\<forall>c' d'. (2, c', d') \<in> keys ?s \<longleftrightarrow> 1 \<le> c' \<and> c' \<le> hi_counts ?s d'"
    unfolding k f using assms l by (simp add: batch_inv_def)
  have 4: "\<forall>c' d'. (3, c', d') \<in> keys ?s \<longleftrightarrow> 1 \<le> c' \<and> c' \<le> lo_counts ?s d'"
    unfolding k f using assms l by (simp add: batch_inv_def)
  have 5: "\<forall>l' c' d'. (l', c', d') \<in> keys ?s \<longrightarrow> l' \<noteq> 2 \<longrightarrow> l' \<noteq> 3 \<longrightarrow> c' < counter ?s"
    unfolding k f using below by fastforce
  have 6: "distinct (map fst (q ?s))"
    unfolding f using assms fresh by (simp add: batch_inv_def keys_def)
  show ?thesis
    unfolding batch_inv_def using f(1,2) 1 2 3 4 5 6 by blast
qed

lemma put_enqueue:
  assumes "batch_inv s1"
    and "s1 = (if q s = []
               then s\<lparr>lo_counts := (\<lambda>_. 0), hi_counts := (\<lambda>_. 0), lo_min := 0, hi_min := 0\<rparr>
               else s)"
  shows "put (l, c, d) m s =
     (if l = 2 then enqueue (2, c, d) (hi_counts s1 d + 1) m (s1\<lparr>hi_counts := (hi_counts s1)(d := hi_counts s1 d + 1)\<rparr>)
      else if l = 3 then enqueue (3, c, d) (lo_counts s1 d + 1) m (s1\<lparr>lo_counts := (lo_counts s1)(d := lo_counts s1 d + 1)\<rparr>)
      else enqueue (l, c, d) (counter s1) m (s1\<lparr>counter := counter s1 + 1\<rparr>))"
proof -
  have h: "hi_min s1 = 0" "0 \<le> hi_counts s1 d" "lo_min s1 = 0" "0 \<le> lo_counts s1 d"
    using assms(1) by (simp_all add: batch_inv_def)
  consider "l = 2" | "l = 3" | "l \<noteq> 2" "l \<noteq> 3" by blast
  then show ?thesis
  proof cases
    case 1
    have "max (hi_counts s1 d + 1) (hi_min s1) = hi_counts s1 d + 1" using h by simp
    then show ?thesis
      unfolding 1 put_high Let_def assms(2) [symmetric]
      by (simp add: enqueue_def level_of_def node_of_def)
  next
    case 2
    have "max (lo_counts s1 d + 1) (lo_min s1) = lo_counts s1 d + 1" using h by simp
    then show ?thesis
      unfolding 2 put_low Let_def assms(2) [symmetric]
      by (simp add: enqueue_def level_of_def node_of_def)
  next
    case 3
    then show ?thesis
      unfolding put_other [OF 3] Let_def assms(2) [symmetric]
      by (simp add: enqueue_def level_of_def node_of_def)
  qed
qed

lemma batch_inv_put:
  assumes "batch_inv s \<or> q s = []"
  shows "batch_inv (put p m s)"
proof -
  obtain l c d where p: "p = (l, c, d)" by (cases p)
  define s1 where "s1 = (if q s = []
               then s\<lparr>lo_counts := (\<lambda>_. 0), hi_counts := (\<lambda>_. 0), lo_min := 0, hi_min := 0\<rparr>
               else s)"
  have inv: "batch_inv s1"
    using assms by (auto simp: s1_def batch_inv_reset)
  show ?thesis
    unfolding p put_enqueue [OF inv s1_def]
    using batch_inv_high [OF inv] batch_inv_low [OF inv] batch_inv_other [OF inv]
    by simp
qed

lemma between_mem:
  assumes "i < l" "l < j" "j \<le> length xs"
  shows "xs ! l \<in> set (take (j - Suc i) (drop (Suc i) xs))"
proof -
  let ?ys = "take (j - Suc i) (drop (Suc i) xs)"
  have len: "length ?ys = j - Suc i" using assms by simp
  have "l - Suc i < length ?ys" using assms len by simp
  moreover have "?ys ! (l - Suc i) = xs ! l" using assms by simp
  ultimately show ?thesis using nth_mem [of "l - Suc i" ?ys] by simp
qed

lemma in_drop_nth:
  assumes "x \<in> set (drop n xs)"
  shows "\<exists>k. n \<le> k \<and> k < length xs \<and> xs ! k = x"
proof -
  from assms obtain i where i: "i < length (drop n xs)" "drop n xs ! i = x"
    unfolding in_set_conv_nth by blast
  then have "n + i < length xs" by simp
  moreover from i this have "xs ! (n + i) = x" by simp
  ultimately show ?thesis by (intro exI [of _ "n + i"]) simp
qed

lemma sorted_distinct_nth_less:
  fixes ks :: "('a::linorder) list"
  assumes "sorted ks" "distinct ks" "a < b" "b < length ks"
  shows "ks ! a < ks ! b"
proof -
  have "ks ! a \<le> ks ! b" using assms by (simp add: sorted_nth_mono)
  moreover have "ks ! a \<noteq> ks ! b" using assms by (simp add: nth_eq_iff_index_eq)
  ultimately show ?thesis by simp
qed

lemma sorted_nth_less_index:
  fixes ks :: "('a::linorder) list"
  assumes "sorted ks" "a < length ks" "b < length ks" "ks ! a < ks ! b"
  shows "a < b"
proof (rule ccontr)
  assume "\<not> a < b"
  then have "b \<le> a" by simp
  then have "ks ! b \<le> ks ! a" using assms by (simp add: sorted_nth_mono)
  with assms(4) show False by simp
qed

lemma fair_core:
  fixes ks :: "(int \<times> int) list"
  assumes srt: "sorted ks" and dst: "distinct ks"
    and closed: "\<And>c d c'. (c, d) \<in> set ks \<Longrightarrow> 1 \<le> c' \<Longrightarrow> c' \<le> c \<Longrightarrow> (c', d) \<in> set ks"
    and pos: "\<And>c d. (c, d) \<in> set ks \<Longrightarrow> 1 \<le> c"
  shows "fair_order (map snd ks)"
  unfolding fair_order_def
proof (intro ballI impI)
  fix j i d'
  assume j: "j \<in> {..<length (map snd ks)}" and i: "i \<in> {..<j}"
    and same: "map snd ks ! i = map snd ks ! j"
    and later: "d' \<in> set (drop (Suc j) (map snd ks))"
    and other: "d' \<noteq> map snd ks ! j"
  from j i have jl: "j < length ks" and ij: "i < j" and il: "i < length ks" by simp_all
  from in_drop_nth [OF later] obtain k where k: "Suc j \<le> k" "k < length ks" "snd (ks ! k) = d'"
    by auto
  obtain ci d where ki: "ks ! i = (ci, d)" by (cases "ks ! i")
  obtain cj where kj: "ks ! j = (cj, d)"
    using same ki il jl by (cases "ks ! j") simp
  obtain ck where kk: "ks ! k = (ck, d')"
    using k by (cases "ks ! k") simp
  have dd: "d' \<noteq> d" using other kj jl by simp
  have lt1: "ks ! i < ks ! j" using srt dst ij jl by (rule sorted_distinct_nth_less)
  have "j < k" using k by simp
  with srt dst have lt2: "ks ! j < ks ! k" using k(2) by (rule sorted_distinct_nth_less)
  from lt1 ki kj have cij: "ci < cj" by simp
  from lt2 kj kk dd have cjk: "cj < ck \<or> (cj = ck \<and> d < d')" by auto
  have mem_k: "(ck, d') \<in> set ks" using nth_mem [OF k(2)] kk by simp
  have mem_i: "(ci, d) \<in> set ks" using nth_mem [OF il] ki by simp
  have ci1: "1 \<le> ci" using mem_i by (rule pos)
  have "\<exists>c'. (c', d') \<in> set ks \<and> (ci, d) < (c', d') \<and> (c', d') < (cj, d)"
  proof (cases "d < d'")
    case True
    have "ci \<le> ck" using cij cjk by auto
    then have "(ci, d') \<in> set ks" using closed [OF mem_k ci1] by simp
    with True cij show ?thesis by (intro exI [of _ ci]) simp
  next
    case False
    with cjk dd have lt: "cj < ck" "d' < d" by auto
    have "1 \<le> cj" "cj \<le> ck" using ci1 cij lt by simp_all
    then have "(cj, d') \<in> set ks" using closed [OF mem_k] by simp
    with lt cij show ?thesis by (intro exI [of _ cj]) simp
  qed
  then obtain c' where c': "(c', d') \<in> set ks" "(ci, d) < (c', d')" "(c', d') < (cj, d)" by blast
  from c'(1) obtain l where l: "l < length ks" "ks ! l = (c', d')"
    unfolding in_set_conv_nth by blast
  have "ks ! i < ks ! l" using c'(2) ki l(2) by simp
  with srt il l(1) have "i < l" by (rule sorted_nth_less_index)
  moreover have "ks ! l < ks ! j" using c'(3) kj l(2) by simp
  with srt l(1) jl have "l < j" by (rule sorted_nth_less_index)
  moreover have "j \<le> length (map snd ks)" using jl by simp
  ultimately have "map snd ks ! l \<in> set (take (j - Suc i) (drop (Suc i) (map snd ks)))"
    by (rule between_mem)
  then show "d' \<in> set (take (j - Suc i) (drop (Suc i) (map snd ks)))"
    using l by simp
qed

lemma put_reset: "q s = [] \<Longrightarrow> put p m s = put p m (reset_fairness s)"
  by (simp add: put_def reset_fairness_def)

lemma q_put: "\<exists>n. q (put p m s) = q s @ [((level_of p, n, node_of p), m)]"
  by (simp add: put_def Let_def)

lemma length_q_put: "length (q (put p m s)) = Suc (length (q s))"
  using q_put [of p m s] by auto

lemma q_put_nonempty: "q (put p m s) \<noteq> []"
  using q_put [of p m s] by auto

lemma fold_sends_reset:
  "q s = [] \<Longrightarrow> ms \<noteq> [] \<Longrightarrow> fold SendMessage ms s = fold SendMessage ms (reset_fairness s)"
  by (cases ms) (simp_all add: SendMessage_def put_reset [of s])

lemma batch_inv_sends: "batch_inv s \<Longrightarrow> batch_inv (fold SendMessage ms s)"
  by (induction ms arbitrary: s) (simp_all add: SendMessage_def batch_inv_put)

lemma length_q_sends: "length (q (fold SendMessage ms s)) = length (q s) + length ms"
  by (induction ms arbitrary: s) (simp_all add: SendMessage_def length_q_put)

lemma tagged_send: "tagged s \<Longrightarrow> tagged (SendMessage m s)"
proof -
  assume t: "tagged s"
  obtain n where "q (put (priority m) m s) = q s @ [((level_of (priority m), n, node_of (priority m)), m)]"
    using q_put [of "priority m" m s] ..
  with t show ?thesis
    by (simp add: tagged_def SendMessage_def dest_def level_of_def node_of_def)
qed

lemma tagged_sends: "tagged s \<Longrightarrow> tagged (fold SendMessage ms s)"
  by (induction ms arbitrary: s) (simp_all add: tagged_send)

lemma sorted_same_level:
  fixes ps :: "priority list"
  assumes "sorted ps" "\<forall>p \<in> set ps. fst p = L"
  shows "sorted (map snd ps)"
  using assms
proof (induction ps)
  case Nil
  show ?case by simp
next
  case (Cons p ps)
  have "\<forall>x \<in> set ps. snd p \<le> snd x"
  proof
    fix x assume x: "x \<in> set ps"
    with Cons.prems have "p \<le> x" "fst p = L" "fst x = L" by auto
    then show "snd p \<le> snd x" by (cases p, cases x) auto
  qed
  with Cons show ?case by simp
qed

lemma distinct_same_level:
  fixes ps :: "priority list"
  assumes "distinct ps" "\<forall>p \<in> set ps. fst p = L"
  shows "distinct (map snd ps)"
proof -
  have "inj_on snd (set ps)"
    using assms(2) by (auto simp: inj_on_def prod_eq_iff)
  with assms(1) show ?thesis by (simp add: distinct_map)
qed

lemma served_keys_sorted: "sorted (served_keys L n s)"
  unfolding served_keys_def
proof (rule sorted_same_level [where L = L])
  show "sorted (filter (\<lambda>p. fst p = L) (map fst (drain n (q s))))"
    using drain_sorted [of n "q s"] by (rule sorted_wrt_filter)
  show "\<forall>p \<in> set (filter (\<lambda>p. fst p = L) (map fst (drain n (q s)))). fst p = L"
    by simp
qed

lemma drain_distinct:
  assumes "distinct (map fst es)" "length es \<le> n"
  shows "distinct (map fst (drain n es))"
proof -
  have "mset (map fst (drain n es)) = mset (map fst es)"
    using drain_mset [OF assms(2)] by (metis mset_map)
  then show ?thesis using assms(1) by (metis distinct_count_atmost_1 set_mset_mset)
qed

lemma drain_set: "length es \<le> n \<Longrightarrow> set (drain n es) = set es"
  using drain_mset [of es n] by (metis set_mset_mset)

lemma drain_length: "length es \<le> n \<Longrightarrow> length (drain n es) = length es"
  using drain_mset [of es n] by (metis size_mset)

lemma served_keys_set:
  assumes "length (q s) \<le> n"
  shows "set (served_keys L n s) = {(c, d). (L, c, d) \<in> keys s}"
proof -
  have "set (map fst (drain n (q s))) = keys s"
    by (simp add: keys_def drain_set [OF assms])
  then have "\<And>c d. (c, d) \<in> set (served_keys L n s) \<longleftrightarrow> (L, c, d) \<in> keys s"
    unfolding served_keys_def set_map set_filter by force
  then show ?thesis by auto
qed

lemma served_keys_distinct:
  assumes "distinct (map fst (q s))" "length (q s) \<le> n"
  shows "distinct (served_keys L n s)"
  unfolding served_keys_def
proof (rule distinct_same_level [where L = L])
  show "distinct (filter (\<lambda>p. fst p = L) (map fst (drain n (q s))))"
    using drain_distinct [OF assms] by (rule distinct_filter)
  show "\<forall>p \<in> set (filter (\<lambda>p. fst p = L) (map fst (drain n (q s)))). fst p = L"
    by simp
qed

lemma served_fair:
  assumes inv: "batch_inv s" and L: "L = 2 \<or> L = 3" and n: "length (q s) \<le> n"
  shows "fair_order (map snd (served_keys L n s))"
proof (rule fair_core)
  show "sorted (served_keys L n s)" by (rule served_keys_sorted)
  show "distinct (served_keys L n s)"
    using inv n by (intro served_keys_distinct) (simp_all add: batch_inv_def)
  have hi: "\<And>c d. (2, c, d) \<in> keys s \<longleftrightarrow> 1 \<le> c \<and> c \<le> hi_counts s d"
    and lo: "\<And>c d. (3, c, d) \<in> keys s \<longleftrightarrow> 1 \<le> c \<and> c \<le> lo_counts s d"
    using inv by (simp_all add: batch_inv_def)
  show "\<And>c d c'. (c, d) \<in> set (served_keys L n s) \<Longrightarrow> 1 \<le> c' \<Longrightarrow> c' \<le> c \<Longrightarrow>
          (c', d) \<in> set (served_keys L n s)"
    using L hi lo by (auto simp: served_keys_set [OF n])
  show "\<And>c d. (c, d) \<in> set (served_keys L n s) \<Longrightarrow> 1 \<le> c"
    using L hi lo by (auto simp: served_keys_set [OF n])
qed

lemma linked:
  assumes "\<forall>e \<in> set es. level_of (fst e) = level_of (priority (snd e)) \<and>
                          node_of (fst e) = dest (snd e)"
  shows "map dest (filter (\<lambda>m. level_of (priority m) = L) (map snd es)) =
         map snd (map snd (filter (\<lambda>p. fst p = L) (map fst es)))"
  using assms by (induction es) (auto simp: level_of_def node_of_def)

lemma served_dests:
  assumes "tagged s"
  shows "map dest (filter (\<lambda>m. level_of (priority m) = L) (gets n s)) =
         map snd (served_keys L n s)"
  unfolding gets_drain served_keys_def
proof (rule linked)
  show "\<forall>e \<in> set (drain n (q s)). level_of (fst e) = level_of (priority (snd e)) \<and>
                          node_of (fst e) = dest (snd e)"
    using assms drain_subset [of n "q s"] unfolding tagged_def by blast
qed

lemma batch_prepared:
  assumes "q s0 = []" "ms \<noteq> []"
  shows "batch_inv (fold SendMessage ms s0)" and "tagged (fold SendMessage ms s0)"
    and "length (q (fold SendMessage ms s0)) = length ms"
proof -
  have r: "fold SendMessage ms s0 = fold SendMessage ms (reset_fairness s0)"
    using assms by (rule fold_sends_reset)
  have "batch_inv (reset_fairness s0)"
    unfolding reset_fairness_def using assms(1) by (rule batch_inv_reset)
  then show "batch_inv (fold SendMessage ms s0)"
    unfolding r by (rule batch_inv_sends)
  have "tagged (reset_fairness s0)"
    using assms(1) by (simp add: tagged_def reset_fairness_def)
  then show "tagged (fold SendMessage ms s0)"
    unfolding r by (rule tagged_sends)
  show "length (q (fold SendMessage ms s0)) = length ms"
    using assms(1) by (simp add: length_q_sends)
qed

lemma msgs_q_sends: "snd ` set (q (fold SendMessage ms s)) = snd ` set (q s) \<union> set ms"
proof (induction ms arbitrary: s)
  case Nil
  show ?case by simp
next
  case (Cons m ms)
  obtain n where "q (put (priority m) m s) = q s @ [((level_of (priority m), n, node_of (priority m)), m)]"
    using q_put [of "priority m" m s] ..
  then have "snd ` set (q (SendMessage m s)) = snd ` set (q s) \<union> {m}"
    by (simp add: SendMessage_def)
  with Cons.IH [of "SendMessage m s"] show ?case by auto
qed

lemma batch_inv_empty_lo:
  assumes "batch_inv s" "q s = []"
  shows "lo_counts s d = 0"
proof -
  have "(3, 1, d) \<in> keys s \<longleftrightarrow> 1 \<le> (1::int) \<and> 1 \<le> lo_counts s d"
    using assms(1) unfolding batch_inv_def by blast
  then have "\<not> 1 \<le> lo_counts s d" using assms(2) by (simp add: keys_def)
  moreover have "0 \<le> lo_counts s d" using assms(1) by (simp add: batch_inv_def)
  ultimately show ?thesis by simp
qed

lemma lo_counts_put_low:
  assumes "batch_inv s"
  shows "lo_counts (put (3, c, d) m s) d' = (if d' = d then lo_counts s d + 1 else lo_counts s d')"
proof -
  define s1 where "s1 = (if q s = []
               then s\<lparr>lo_counts := (\<lambda>_. 0), hi_counts := (\<lambda>_. 0), lo_min := 0, hi_min := 0\<rparr>
               else s)"
  have inv: "batch_inv s1"
    using assms by (auto simp: s1_def batch_inv_reset)
  have same: "lo_counts s1 x = lo_counts s x" for x
    using batch_inv_empty_lo [OF assms] by (simp add: s1_def)
  show ?thesis
    unfolding put_enqueue [OF inv s1_def]
    by (simp add: enqueue_def same)
qed

lemma lo_counts_sends:
  assumes "batch_inv s" "\<forall>m \<in> set ms. level_of (priority m) = 3"
  shows "lo_counts (fold SendMessage ms s) d = lo_counts s d + int (count_list (map dest ms) d)"
  using assms
proof (induction ms arbitrary: s)
  case Nil
  show ?case by simp
next
  case (Cons m ms)
  obtain c d' where p: "priority m = (3, c, d')"
    using Cons.prems(2) by (cases "priority m") (simp add: level_of_def)
  have inv: "batch_inv (SendMessage m s)"
    unfolding SendMessage_def using Cons.prems(1) by (intro batch_inv_put) simp
  have "lo_counts (SendMessage m s) d = (if d = d' then lo_counts s d' + 1 else lo_counts s d)"
    unfolding SendMessage_def p using Cons.prems(1) by (rule lo_counts_put_low)
  moreover have "dest m = d'" by (simp add: dest_def p node_of_def)
  ultimately show ?case
    using Cons.IH [OF inv] Cons.prems(2) by simp
qed

lemma length_two_values:
  assumes "\<forall>d \<in> set ds. d = a \<or> d = b" "a \<noteq> b"
  shows "length ds = count_list ds a + count_list ds b"
  using assms by (induction ds) auto

subsection \<open>Claim C3: fairness within a level\<close>

text \<open>
  Claim C3 asks for the fair order after every sequence of \<open>put\<close> and \<open>get\<close>. It fails
  at level 2, where the floor is maintained: destination 7 puts two messages and one is
  served; destination 3 then puts two messages, which get the counters 1 and 2; the
  next gets serve 3, 3 and only then the message of 7 that was queued all along, since
  \<open>(2, 2, 3)\<close> is below \<open>(2, 2, 7)\<close>.
\<close>

theorem fairness_interleaved_counterexample:
  "map dest (gets 3 (fold SendMessage [high_msg 3 [3], high_msg 3 [4]]
      (after_gets 1 (fold SendMessage [high_msg 7 [1], high_msg 7 [2]] MessageQueueOut_init))))
     = [3, 3, 7] \<and>
   \<not> fair_order (map dest (filter (\<lambda>m. level_of (priority m) = 2)
      (gets 3 (fold SendMessage [high_msg 3 [3], high_msg 3 [4]]
        (after_gets 1 (fold SendMessage [high_msg 7 [1], high_msg 7 [2]] MessageQueueOut_init))))))"
  by (simp add: get_def put_def q_get_def MessageQueueOut_init_def level_of_def node_of_def
      count_of_def Let_def SendMessage_def high_msg_def dest_def eval_nat_numeral
      fair_order_def lessThan_Suc)

text \<open>
  Claim C3 as amended: when messages are put into an empty queue and then served with no
  put in between, every \<open>get\<close> returns, and at each fairness-managed level (2 and 3) the
  order of service is fair: between two dequeues of one destination, every other
  destination that still has a message queued at that level is dequeued.
\<close>

theorem batch_fairness:
  assumes "q s0 = []" and "L = 2 \<or> L = 3"
  shows "length (gets (length ms) (fold SendMessage ms s0)) = length ms \<and>
         fair_order (map dest (filter (\<lambda>m. level_of (priority m) = L)
                       (gets (length ms) (fold SendMessage ms s0))))"
proof (cases "ms = []")
  case True
  then show ?thesis by (simp add: fair_order_def)
next
  case False
  let ?s = "fold SendMessage ms s0"
  note p = batch_prepared [OF assms(1) False]
  have "length (gets (length ms) ?s) = length ms"
    using p(3) by (simp add: gets_drain drain_length)
  moreover have "fair_order (map snd (served_keys L (length ms) ?s))"
    using p(1) assms(2) p(3) by (intro served_fair) simp_all
  ultimately show ?thesis
    by (simp add: served_dests [OF p(2)])
qed

theorem batch_fairness_witness:
  "q (MessageQueueOut_init :: message MessageQueueOut) = [] \<and>
   ((3::int) = 2 \<or> (3::int) = 3) \<and>
   length (gets (length [low_msg 3 [1], low_msg 3 [2], low_msg 7 [3], low_msg 5 [4]])
     (fold SendMessage [low_msg 3 [1], low_msg 3 [2], low_msg 7 [3], low_msg 5 [4]]
        MessageQueueOut_init)) =
     length [low_msg 3 [1], low_msg 3 [2], low_msg 7 [3], low_msg 5 [4]] \<and>
   fair_order (map dest (filter (\<lambda>m. level_of (priority m) = 3)
      (gets (length [low_msg 3 [1], low_msg 3 [2], low_msg 7 [3], low_msg 5 [4]])
        (fold SendMessage [low_msg 3 [1], low_msg 3 [2], low_msg 7 [3], low_msg 5 [4]]
          MessageQueueOut_init))))"
proof -
  have e: "q (MessageQueueOut_init :: message MessageQueueOut) = []"
    by (simp add: MessageQueueOut_init_def)
  have l: "(3::int) = 2 \<or> (3::int) = 3" by simp
  from e l batch_fairness [OF e l, of "[low_msg 3 [1], low_msg 3 [2], low_msg 7 [3], low_msg 5 [4]]"]
  show ?thesis by (intro conjI) (erule conjunct1 conjunct2 | assumption)+
qed

subsection \<open>Claim C4: scenario B\<close>

text \<open>
  Claim C4: from an empty queue, destination 3 and destination 7 each put three
  low-priority messages, in any interleaving, and nothing else is put; then six
  successive gets return the messages in the destination order 3, 7, 3, 7, 3, 7.
\<close>

theorem scenario_b:
  assumes empty: "q s0 = []"
    and low: "\<forall>m \<in> set ms. level_of (priority m) = 3 \<and> (dest m = 3 \<or> dest m = 7)"
    and three: "count_list (map dest ms) 3 = 3"
    and seven: "count_list (map dest ms) 7 = 3"
  shows "map dest (gets 6 (fold SendMessage ms s0)) = [3, 7, 3, 7, 3, 7]"
proof -
  let ?s = "fold SendMessage ms s0"
  have ne: "ms \<noteq> []" using three by auto
  note p = batch_prepared [OF empty ne]
  have r: "?s = fold SendMessage ms (reset_fairness s0)"
    using empty ne by (rule fold_sends_reset)
  have inv0: "batch_inv (reset_fairness s0)"
    unfolding reset_fairness_def using empty by (rule batch_inv_reset)
  have cnt: "lo_counts ?s d = int (count_list (map dest ms) d)" for d
    unfolding r using lo_counts_sends [OF inv0, of ms d] low
    by (simp add: reset_fairness_def)
  have other: "count_list (map dest ms) d = 0" if "d \<noteq> 3" "d \<noteq> 7" for d
    using that low by (intro count_notin) auto
  have "length (map dest ms) = count_list (map dest ms) 3 + count_list (map dest ms) 7"
    using low by (intro length_two_values) auto
  then have len: "length (q ?s) \<le> 6"
    using p(3) three seven by simp
  have lo: "\<And>c d. (3, c, d) \<in> keys ?s \<longleftrightarrow> 1 \<le> c \<and> c \<le> lo_counts ?s d"
    using p(1) by (simp add: batch_inv_def)
  have "set (served_keys 3 6 ?s) = {(c, d). 1 \<le> c \<and> c \<le> lo_counts ?s d}"
    unfolding served_keys_set [OF len] using lo by simp
  also have "\<dots> = set [(1, 3), (1, 7), (2, 3), (2, 7), (3, 3), (3, 7)]"
  proof -
    have "1 \<le> c \<and> c \<le> lo_counts ?s d \<longleftrightarrow> (d = 3 \<or> d = 7) \<and> (c = 1 \<or> c = 2 \<or> c = 3)" for c d
      using cnt [of d] three seven other [of d] by (cases "d = 3"; cases "d = 7") auto
    then show ?thesis by auto
  qed
  finally have "served_keys 3 6 ?s = [(1, 3), (1, 7), (2, 3), (2, 7), (3, 3), (3, 7)]"
    using served_keys_sorted [of 3 6 ?s] served_keys_distinct [of ?s 6 3] p(1) len
    by (intro sorted_distinct_set_unique) (simp_all add: batch_inv_def)
  moreover have "filter (\<lambda>m. level_of (priority m) = 3) (gets 6 ?s) = gets 6 ?s"
  proof (rule filter_True)
    have "set (gets 6 ?s) \<subseteq> snd ` set (q ?s)"
      unfolding gets_drain using drain_subset [of 6 "q ?s"] by auto
    also have "\<dots> = set ms"
      using empty by (simp add: msgs_q_sends)
    finally show "\<forall>m \<in> set (gets 6 ?s). level_of (priority m) = 3"
      using low by blast
  qed
  ultimately show ?thesis
    using served_dests [OF p(2), of 3 6] by simp
qed

theorem scenario_b_witness:
  "map dest (gets 6 (fold SendMessage
      [low_msg 3 [1], low_msg 7 [2], low_msg 7 [3], low_msg 3 [4], low_msg 3 [5], low_msg 7 [6]]
      MessageQueueOut_init)) = [3, 7, 3, 7, 3, 7]"
proof -
  let ?ms = "[low_msg 3 [1], low_msg 7 [2], low_msg 7 [3], low_msg 3 [4], low_msg 3 [5], low_msg 7 [6]]"
  have e: "q (MessageQueueOut_init :: message MessageQueueOut) = []"
    by (simp add: MessageQueueOut_init_def)
  have low: "\<forall>m \<in> set ?ms. level_of (priority m) = 3 \<and> (dest m = 3 \<or> dest m = 7)"
    by (simp add: low_msg_def dest_def node_of_def level_of_def)
  have three: "count_list (map dest ?ms) 3 = 3"
    by (simp add: low_msg_def dest_def node_of_def)
  have seven: "count_list (map dest ?ms) 7 = 3"
    by (simp add: low_msg_def dest_def node_of_def)
  show ?thesis by (rule scenario_b [OF e low three seven])
qed

section \<open>What \<open>put\<close> and \<open>get\<close> do to the entries of the queue\<close>

lemma get_parts:
  assumes "get Q = Some (m, Q')"
  shows "\<exists>p. (p, m) \<in> set (q Q) \<and> q Q' = remove1 (p, m) (q Q) \<and>
             (\<forall>e \<in> set (q Q). p \<le> fst e) \<and> counter Q' = counter Q"
proof -
  from get_Some_q [OF assms] obtain p where p: "q_get (q Q) = Some ((p, m), q Q')" ..
  have c: "counter Q' = counter Q"
    using assms by (auto simp: get_def Let_def split: option.splits prod.splits if_splits)
  from q_get_Some [OF p] c show ?thesis by (intro exI [of _ p]) simp
qed

lemma put_parts:
  "\<exists>n. q (put p m Q) = q Q @ [((level_of p, n, node_of p), m)] \<and>
       (level_of p \<noteq> 2 \<and> level_of p \<noteq> 3 \<longrightarrow> n = counter Q \<and> counter (put p m Q) = counter Q + 1) \<and>
       (level_of p = 2 \<or> level_of p = 3 \<longrightarrow> counter (put p m Q) = counter Q)"
  by (simp add: put_def Let_def)

text \<open>The messages in the queue after a \<open>put\<close> and after a \<open>get\<close>.\<close>

lemma msgs_put: "snd ` set (q (put p m Q)) = insert m (snd ` set (q Q))"
  using put_parts [of p m Q] by auto

lemma msgs_get:
  assumes "get Q = Some (m, Q')"
  shows "snd ` set (q Q') \<subseteq> snd ` set (q Q)"
    and "snd ` set (q Q) \<subseteq> insert m (snd ` set (q Q'))"
proof -
  from get_parts [OF assms] obtain p where p: "(p, m) \<in> set (q Q)" "q Q' = remove1 (p, m) (q Q)"
    by blast
  have "set (q Q') \<subseteq> set (q Q)" unfolding p(2) by (rule set_remove1_subset)
  then show "snd ` set (q Q') \<subseteq> snd ` set (q Q)" by blast
  show "snd ` set (q Q) \<subseteq> insert m (snd ` set (q Q'))"
  proof
    fix x assume "x \<in> snd ` set (q Q)"
    then obtain px where px: "(px, x) \<in> set (q Q)" by auto
    show "x \<in> insert m (snd ` set (q Q'))"
    proof (cases "(px, x) = (p, m)")
      case True
      then show ?thesis by simp
    next
      case False
      then have "(px, x) \<in> set (remove1 (p, m) (q Q))" using px by simp
      then show ?thesis unfolding p(2) by force
    qed
  qed
qed

section \<open>Properties of the diagnostics\<close>

lemma stats_step_node_parts:
  "by_node_cnt (stats_step m a) = (by_node_cnt a)(node m := by_node_cnt a (node m) + 1)"
  "node_keys (stats_step m a) =
     (if node m \<in> set (node_keys a) then node_keys a else node_keys a @ [node m])"
  by (simp_all add: stats_step_def Let_def split: option.splits)

lemma counted_step: "counted a \<Longrightarrow> counted (stats_step m a)"
  unfolding counted_def stats_step_node_parts
  by (auto simp: add_increasing2)

lemma counted_fold: "counted a \<Longrightarrow> counted (fold stats_step mm a)"
  by (induction mm arbitrary: a) (simp_all add: counted_step)

lemma node_keys_fold:
  "set (node_keys (fold stats_step mm a)) = set (node_keys a) \<union> node ` set mm"
  by (induction mm arbitrary: a) (auto simp: stats_step_node_parts)

lemma node_lines_total:
  assumes "\<forall>k \<in> set ks. k \<noteq> None \<and> by_node_cnt a k \<noteq> 0"
  shows "\<exists>ls. node_lines a ks = Inr ls"
  using assms
proof (induction ks)
  case Nil
  show ?case by simp
next
  case (Cons k ks)
  then obtain n where k: "k = Some n" by auto
  from Cons.prems have nz: "by_node_cnt a k \<noteq> 0" by simp
  from Cons obtain ls where ls: "node_lines a ks = Inr ls" by auto
  have "\<exists>l. node_line a k = Inr l"
    using nz by (simp add: node_line_def k floordiv_def)
  then obtain l where "node_line a k = Inr l" ..
  with ls show ?case by simp
qed

lemma map_some_the: "None \<notin> set ks \<Longrightarrow> map Some (map the ks) = ks"
  by (induction ks) auto

lemma stats_total:
  assumes ne: "hist \<noteq> []" and nodes: "\<forall>m \<in> set hist. node m \<noteq> None"
  shows "\<exists>out. MessageStatsString hist = Inr out"
proof -
  let ?a = "fold stats_step hist stats_init"
  let ?ks = "map Some (sort (map the (node_keys ?a)))"
  have c: "counted ?a"
    by (rule counted_fold) (simp add: counted_def stats_init_def)
  have keys: "set (node_keys ?a) = node ` set hist"
    by (simp add: node_keys_fold stats_init_def)
  with nodes have nn: "None \<notin> set (node_keys ?a)" by auto
  then have sk: "sorted_node_keys (node_keys ?a) = Inr ?ks"
    by (simp add: sorted_node_keys_def)
  have "set ?ks = set (map Some (map the (node_keys ?a)))"
    by (simp only: set_map set_sort)
  also have "\<dots> = set (node_keys ?a)"
    by (simp only: map_some_the [OF nn])
  finally have ks: "set ?ks = set (node_keys ?a)" .
  have "\<forall>k \<in> set ?ks. k \<noteq> None \<and> by_node_cnt ?a k \<noteq> 0"
  proof
    fix k assume "k \<in> set ?ks"
    then have k: "k \<in> set (node_keys ?a)" by (simp only: ks)
    then have "1 \<le> by_node_cnt ?a k" using c unfolding counted_def by blast
    moreover have "k \<noteq> None"
    proof
      assume "k = None"
      with k have "None \<in> set (node_keys ?a)" by simp
      with nn show False by simp
    qed
    ultimately show "k \<noteq> None \<and> by_node_cnt ?a k \<noteq> 0" by simp
  qed
  then have "\<exists>ls. node_lines ?a ?ks = Inr ls" by (rule node_lines_total)
  then obtain ls where ls: "node_lines ?a ?ks = Inr ls" ..
  have mm: "(if (0::nat) > 0 then drop (length hist - 0) hist else hist) = hist"
    by simp
  have fd: "floordiv x (int (length hist)) = Inr (x div int (length hist))" for x
    using ne by (simp add: floordiv_def)
  show ?thesis
    unfolding MessageStatsString_def Let_def mm fd sk by (simp add: ls)
qed

text \<open>
  The rendering agrees with Python's on a hist of three messages, two of them to node 5.
\<close>

lemma stats_example:
  "MessageStatsString
     [\<lparr>payload = Some [1, 2], priority = (3, 0, 5), callback = UserCallback 0, node = Some 5,
        can = 2, state = ''Completed'', start = 1, end_ts = Some (5 / 4), aborted = False\<rparr>,
      \<lparr>payload = Some [3], priority = (3, 0, 12), callback = UserCallback 0, node = Some 12,
        can = 0, state = ''Aborted'', start = 2, end_ts = Some (5 / 2), aborted = True\<rparr>,
      \<lparr>payload = Some [4], priority = (3, 0, 5), callback = UserCallback 0, node = Some 5,
        can = 0, state = ''Completed'', start = 10, end_ts = None, aborted = False\<rparr>] =
   Inr (join_lines
     [''processed: 3  with-can: 1 (total can: 2) avg-time: 250ms'',
      ''by state:'',
      '' Aborted             :    1'',
      '' Completed           :    2'',
      ''node  cnt nt can dur. bad'',
      ''  5:    2 (  1)  125ms (  0)'',
      '' 12:    1 (  0)  500ms (  1)''])"
  by code_simp

subsection \<open>Claim C10: the statistics of an empty hist\<close>

text \<open>
  Claim C10: \<open>MessageStatsString\<close> divides the summed duration by the number of messages,
  so on the empty hist it raises \<open>ZeroDivisionError\<close>, and \<open>Driver.__str__\<close>, which
  renders \<open>self._history\<close> with it, fails before any message has been recorded. On a
  non-empty hist of messages that have a node it returns a string.
\<close>

theorem stats_fail_on_empty_history:
  "MessageStatsString [] = Inl ZeroDivisionError \<and>
   Driver_str out_queue_str inflight_str [] = Inl ZeroDivisionError \<and>
   (hist \<noteq> [] \<and> (\<forall>m \<in> set hist. node m \<noteq> None) \<longrightarrow>
      (\<exists>out. MessageStatsString hist = Inr out))"
proof -
  have e: "MessageStatsString [] = Inl ZeroDivisionError"
    by (simp add: MessageStatsString_def floordiv_def stats_init_def)
  then have "Driver_str out_queue_str inflight_str [] = Inl ZeroDivisionError"
    by (simp add: Driver_str_def)
  with e show ?thesis using stats_total by blast
qed

theorem stats_fail_on_empty_history_witness:
  "MessageStatsString [] = Inl ZeroDivisionError \<and>
   Driver_str ''Per node queue length: {}'' ''None'' [] = Inl ZeroDivisionError \<and>
   (\<exists>out. MessageStatsString
      [\<lparr>payload = Some [1, 2], priority = (3, 0, 5), callback = UserCallback 0, node = Some 5,
         can = 2, state = ''Completed'', start = 1, end_ts = Some (5 / 4), aborted = False\<rparr>] =
      Inr out)"
  using stats_fail_on_empty_history [of "''Per node queue length: {}''" "''None''"
      "[\<lparr>payload = Some [1, 2], priority = (3, 0, 5), callback = UserCallback 0, node = Some 5,
         can = 2, state = ''Completed'', start = 1, end_ts = Some (5 / 4), aborted = False\<rparr>]"]
  by simp

section \<open>Properties of the receiving thread and of the supervision\<close>

subsection \<open>Claim C5: a frame that is not complete after two seconds\<close>

text \<open>
  Claim C5 says that the incomplete frame is a fatal condition that the supervision does not
  absorb. The receiving thread reads the start marker at time 0 and one more byte at time
  3, and no complete frame can be extracted: the call ends with \<open>AssertionError\<close>. The
  wrapper \<open>_run_child_thread\<close> catches it, sleeps for half a second and, with
  \<open>_terminate\<close> still unset, calls the receiving thread again with the delay doubled.
\<close>

theorem incomplete_frame_absorbed_counterexample:
  "DriverReceivingThread
     \<lparr>ExtracRawMessage = (\<lambda>b. None),
      NextActionForReceivedMessage = (\<lambda>ts m i. ((DO_NOTHING, []), i)),
      GetMessage = (\<lambda>i. None),
      StartMessage = (\<lambda>m ts i. (True, i)),
      WaitForMessageCompletion = (\<lambda>i. Some i)\<rparr>
     [(False, [SOF], 0, 0, None, (\<lambda>d. d)), (False, [5], 3, 3, None, (\<lambda>d. d))] rx_init
     \<lparr>out_queue = MessageQueueOut_init, raw_history = [], history = [], terminate = False,
      in_queue = [], device = [], inflight = ()\<rparr>
     = Some (Raises AssertionError) \<and>
   fold child_step [Check False, FnRaises AssertionError] child_start = Sleeping (1 / 2) \<and>
   fold child_step [Check False, FnRaises AssertionError, Woke, Check False] child_start = InFn 1 \<and>
   fold child_step [Check False, FnRaises AssertionError] child_start \<noteq> Dead AssertionError"
  by (simp add: rx_iteration_def rx_receive_def rx_init_def SOF_def child_start_def)

text \<open>
  Claim C5 as amended: when a byte arrives more than 2 seconds after the start marker of a
  frame that is still incomplete, the pass of the receiving thread raises
  \<open>AssertionError\<close>; \<open>_run_child_thread\<close> catches it as it catches any other \<open>Exception\<close>,
  sleeps for the current delay, doubles the delay if it is below 60, and calls the thread
  function again, unless \<open>_terminate\<close> has been set in the meantime.
\<close>

theorem incomplete_frame_raises_and_is_retried:
  assumes "r \<noteq> []"
    and "hd (buf rx @ r) = SOF"
    and "ExtracRawMessage zm (buf rx @ r) = None \<or> ExtracRawMessage zm (buf rx @ r) = Some []"
    and "last_sof_arrival rx = Some t"
    and "ts - t > 2"
  shows "rx_iteration zm r ts now io others rx d = Inl AssertionError \<and>
         child_step (FnRaises AssertionError) (InFn delay) = Sleeping delay \<and>
         fold child_step [Woke, Check False] (Sleeping delay) =
           InFn (if delay < 60 then delay * 2 else delay) \<and>
         fold child_step [Woke, Check True] (Sleeping delay) = AtBarrier"
proof -
  have "hd (take 1 (buf rx @ r)) = SOF"
    using assms(1,2) by (cases "buf rx @ r") simp_all
  then have "rx_receive zm r ts rx d = Inl AssertionError"
    using assms by (auto simp: rx_receive_def Let_def)
  then show ?thesis by (simp add: rx_iteration_def)
qed

theorem incomplete_frame_raises_and_is_retried_witness:
  "rx_iteration
     \<lparr>ExtracRawMessage = (\<lambda>b. None),
      NextActionForReceivedMessage = (\<lambda>ts m i. ((DO_NOTHING, []), i)),
      GetMessage = (\<lambda>i. None),
      StartMessage = (\<lambda>m ts i. (True, i)),
      WaitForMessageCompletion = (\<lambda>i. Some i)\<rparr>
     [5] 3 3 None (\<lambda>d. d) \<lparr>buf = [SOF], last_sof_arrival = Some 0\<rparr>
     \<lparr>out_queue = MessageQueueOut_init, raw_history = [], history = [], terminate = False,
      in_queue = [], device = [], inflight = ()\<rparr> = Inl AssertionError \<and>
   child_step (FnRaises AssertionError) (InFn (1 / 2)) = Sleeping (1 / 2) \<and>
   fold child_step [Woke, Check False] (Sleeping (1 / 2)) = InFn 1 \<and>
   fold child_step [Woke, Check True] (Sleeping (1 / 2)) = AtBarrier"
  using incomplete_frame_raises_and_is_retried
    [of "[5]" "\<lparr>buf = [SOF], last_sof_arrival = Some 0\<rparr>"
      "\<lparr>ExtracRawMessage = (\<lambda>b. None),
        NextActionForReceivedMessage = (\<lambda>ts m i. ((DO_NOTHING, []), i)),
        GetMessage = (\<lambda>i. None),
        StartMessage = (\<lambda>m ts i. (True, i)),
      WaitForMessageCompletion = (\<lambda>i. Some i)\<rparr>" 0 3 3 None "\<lambda>d. d"
      "\<lparr>out_queue = MessageQueueOut_init, raw_history = [], history = [], terminate = False,
        in_queue = [], device = [], inflight = ()\<rparr>" "1 / 2"]
  by simp

section \<open>Properties of the sending thread\<close>












subsection \<open>Claim C1: at most one message in flight\<close>




subsection \<open>Claim C8: a retry resends the payload of the message in flight\<close>

text \<open>
  The branch on \<open>DO_RETRY\<close>, line 383, reads the message a second time, after the state
  machine has answered. If the message is still there, the branch writes its payload and
  nothing else; if \<open>GetMessage()\<close> returns \<open>None\<close>, the branch raises \<open>AttributeError\<close> and
  writes nothing.
\<close>

lemma retry_branch_message_present:
  assumes "GetMessage zm (inflight d) = Some msg" and "payload msg = Some bs"
  shows "\<exists>d'. rx_act zm ts now None m DO_RETRY d = Inr d' \<and> device d' = device d @ [bs] \<and>
              raw_history d' = raw_history d @ [(now, True, Some bs, ''re-try'')]"
  using assms by (simp add: rx_act_def SendRaw_def LogSent_def Let_def)

lemma retry_branch_message_gone:
  assumes "GetMessage zm (inflight d) = None"
  shows "rx_act zm ts now io m DO_RETRY d = Inl (AttributeError, d)"
  using assms by (simp add: rx_act_def)

text \<open>
  Claim C8 on a run in which it fails. A message with the payload \<open>[1, 2]\<close> is submitted
  and sent; a negative-acknowledge arrives and the state machine directs a retry; before
  the receiving thread takes the branch, the deadline of \<open>WaitForCompletion\<close> resolves the
  message. The retry that was directed resends nothing: the device has received the
  payload once, the log has no entry of a retry, and the call of the receiving thread
  has ended with \<open>AttributeError\<close>.
\<close>

theorem retry_directed_nothing_resent:
  "rx_pending (fold (sys_step \<lparr>max_retries = 3, expected_reply = (\<lambda>m. None),
                               extract_frame = (\<lambda>b. None)\<rparr>)
      [Send (low_msg 5 [1, 2]), Tx 0 None, Tx 0 None, Tx 1 None, Tx 1 None, Tx 2 None,
       Rx [NAK] 3] sys_init) = Some (3, [NAK], DO_RETRY) \<and>
   device (drv (tx_side (fold (sys_step \<lparr>max_retries = 3, expected_reply = (\<lambda>m. None),
                               extract_frame = (\<lambda>b. None)\<rparr>)
      [Send (low_msg 5 [1, 2]), Tx 0 None, Tx 0 None, Tx 1 None, Tx 1 None, Tx 2 None,
       Rx [NAK] 3, Deadline, RxAct 4 None] sys_init))) = [[1, 2]] \<and>
   raw_history (drv (tx_side (fold (sys_step \<lparr>max_retries = 3, expected_reply = (\<lambda>m. None),
                               extract_frame = (\<lambda>b. None)\<rparr>)
      [Send (low_msg 5 [1, 2]), Tx 0 None, Tx 0 None, Tx 1 None, Tx 1 None, Tx 2 None,
       Rx [NAK] 3, Deadline, RxAct 4 None] sys_init))) =
     [(2, True, Some [1, 2], []), (3, False, Some [NAK], ''nak'')]"
  by (simp add: sys_step_def sys_init_def zm_spec_def tx_step_def tx_raise_def act_def
      tx_start_def SendMessage_def get_def put_def q_get_def MessageQueueOut_init_def
      level_of_def node_of_def count_of_def Let_def low_msg_def RecordInflight_def SendRaw_def
      LogSent_def LogReceived_def rx_receive_def rx_frame_def rx_act_def rx_init_def
      OnReceive_def StartMessage_spec_def WaitForCompletion_spec_def GetMessage_spec_def
      deadline_def resolve_def fire_def InflightMessage_init_def ACK_def NAK_def CAN_def SOF_def)

section \<open>Properties of the shut-down\<close>

lemma child_exhaust: "c = TxThread \<or> c = RxThread \<or> c = ForwardingThread"
  by (cases c) auto

lemma all_child: "(\<forall>c. P c) \<longleftrightarrow> P TxThread \<and> P RxThread \<and> P ForwardingThread"
  using child_exhaust by metis

lemma ex_child: "(\<exists>c. P c) \<longleftrightarrow> P TxThread \<or> P RxThread \<or> P ForwardingThread"
  using child_exhaust by metis

lemma child_step_barrier:
  "child_step ev pc = AtBarrier \<Longrightarrow> pc \<noteq> AtBarrier \<Longrightarrow> pc \<noteq> Terminated"
  by (cases pc) auto

lemma child_step_Terminated: "child_step ev pc = Terminated \<longleftrightarrow> pc = Terminated"
  by (cases "(ev, pc)" rule: child_step.cases) (auto split: if_splits)

lemma child_step_AtBarrier_stays: "child_step ev AtBarrier = AtBarrier"
  by (cases ev) auto

lemma inv_init: "lifecycle_inv (lifecycle_init i)"
  by (simp add: lifecycle_inv_def lifecycle_init_def at_barrier_def child_threads_def
      barrier_parties_def child_start_def)

lemma at_barrier_le: "at_barrier s \<le> barrier_parties"
  by (simp add: at_barrier_def child_threads_def barrier_parties_def)

lemma at_barrier_full:
  assumes "at_barrier s = barrier_parties"
  shows "(\<forall>c. children s c = AtBarrier) \<and> caller s = WaitingAtBarrier"
proof -
  have "children s TxThread = AtBarrier \<and> children s RxThread = AtBarrier \<and>
        children s ForwardingThread = AtBarrier \<and> caller s = WaitingAtBarrier"
    using assms
    by (simp add: at_barrier_def child_threads_def barrier_parties_def split: if_splits)
  then show ?thesis by (simp add: all_child)
qed

lemma at_barrier_child_arrives:
  "children s c \<noteq> AtBarrier \<Longrightarrow>
   at_barrier (s\<lparr>children := (children s)(c := AtBarrier)\<rparr>) = at_barrier s + 1"
  by (cases c) (simp_all add: at_barrier_def child_threads_def)

lemma at_barrier_child_moves:
  "children s c \<noteq> AtBarrier \<Longrightarrow> pc' \<noteq> AtBarrier \<Longrightarrow>
   at_barrier (s\<lparr>children := (children s)(c := pc')\<rparr>) = at_barrier s"
  by (cases c) (simp_all add: at_barrier_def child_threads_def)

lemma at_barrier_caller_arrives:
  "caller s \<noteq> WaitingAtBarrier \<Longrightarrow>
   at_barrier (s\<lparr>caller := WaitingAtBarrier\<rparr>) = at_barrier s + 1"
  by (simp add: at_barrier_def)

lemma at_barrier_release: "at_barrier (release s) = 0"
  by (simp add: at_barrier_def release_def child_threads_def)

lemma inv_barrier_wait:
  assumes count: "at_barrier s1 = waiting s1 + 1"
    and nobody: "caller s1 \<noteq> TerminateReturned" "\<forall>c. children s1 c \<noteq> Terminated"
    and flag: "caller s1 = WaitingAtBarrier \<longrightarrow> terminate (driver s1)"
    and lock: "lock_released s1 \<longrightarrow> terminate (driver s1)"
  shows "lifecycle_inv (barrier_wait s1)"
proof (cases "waiting s1 + 1 = barrier_parties")
  case True
  then have "at_barrier (s1\<lparr>waiting := waiting s1 + 1\<rparr>) = barrier_parties"
    using count by (simp add: at_barrier_def)
  then have full: "(\<forall>c. children s1 c = AtBarrier) \<and> caller s1 = WaitingAtBarrier"
    using at_barrier_full [of "s1\<lparr>waiting := waiting s1 + 1\<rparr>"] by simp
  have bw: "barrier_wait s1 = release (s1\<lparr>waiting := waiting s1 + 1\<rparr>)"
    using True by (simp add: barrier_wait_def Let_def)
  have "waiting (barrier_wait s1) = 0" "caller (barrier_wait s1) = TerminateReturned"
    "\<forall>c. children (barrier_wait s1) c = Terminated"
    "driver (barrier_wait s1) = driver s1" "lock_released (barrier_wait s1) = lock_released s1"
    using full by (simp_all add: bw release_def)
  moreover have "at_barrier (barrier_wait s1) = 0"
    unfolding bw by (rule at_barrier_release)
  moreover have "terminate (driver s1)" using full flag by simp
  ultimately show ?thesis
    by (simp add: lifecycle_inv_def barrier_parties_def child_threads_def)
next
  case False
  then have bw: "barrier_wait s1 = s1\<lparr>waiting := waiting s1 + 1\<rparr>"
    by (simp add: barrier_wait_def Let_def)
  have "at_barrier (barrier_wait s1) = waiting s1 + 1"
    unfolding bw using count by (simp add: at_barrier_def)
  moreover have "waiting s1 + 1 < barrier_parties"
    using False count at_barrier_le [of s1] by simp
  ultimately show ?thesis
    using nobody flag lock by (simp add: lifecycle_inv_def bw)
qed

lemma inv_waiting: "lifecycle_inv s \<Longrightarrow> waiting s = at_barrier s"
  unfolding lifecycle_inv_def by (elim conjE)

lemma inv_below: "lifecycle_inv s \<Longrightarrow> waiting s < barrier_parties"
  unfolding lifecycle_inv_def by (elim conjE)

lemma inv_flag:
  "lifecycle_inv s \<Longrightarrow> caller s = WaitingAtBarrier \<or> caller s = TerminateReturned \<Longrightarrow>
   terminate (driver s)"
  unfolding lifecycle_inv_def by (elim conjE) blast

lemma inv_lock: "lifecycle_inv s \<Longrightarrow> lock_released s \<Longrightarrow> terminate (driver s)"
  unfolding lifecycle_inv_def by (elim conjE) blast

lemma inv_returned:
  "lifecycle_inv s \<Longrightarrow> caller s = TerminateReturned \<Longrightarrow> children s c = Terminated"
  unfolding lifecycle_inv_def by (elim conjE) blast

lemma inv_nobody_past:
  assumes "lifecycle_inv s" "children s c \<noteq> Terminated"
  shows "caller s \<noteq> TerminateReturned" "\<forall>c'. children s c' \<noteq> Terminated"
  using assms unfolding lifecycle_inv_def by blast+

lemma inv_not_returned:
  assumes "lifecycle_inv s" "caller s \<noteq> TerminateReturned"
  shows "\<forall>c'. children s c' \<noteq> Terminated"
  using assms unfolding lifecycle_inv_def by blast

lemma lifecycle_invI:
  assumes "waiting s = at_barrier s" "waiting s < barrier_parties"
    "caller s \<noteq> TerminateReturned" "\<forall>c. children s c \<noteq> Terminated"
    "caller s = WaitingAtBarrier \<longrightarrow> terminate (driver s)"
    "lock_released s \<longrightarrow> terminate (driver s)"
  shows "lifecycle_inv s"
  unfolding lifecycle_inv_def using assms by blast

lemma inv_arrive_child:
  assumes inv: "lifecycle_inv s" and nb: "children s c \<noteq> AtBarrier" and nt: "children s c \<noteq> Terminated"
  shows "lifecycle_inv (barrier_wait (s\<lparr>children := (children s)(c := AtBarrier)\<rparr>))"
proof (rule inv_barrier_wait)
  let ?s1 = "s\<lparr>children := (children s)(c := AtBarrier)\<rparr>"
  show "at_barrier ?s1 = waiting ?s1 + 1"
    using inv_waiting [OF inv] at_barrier_child_arrives [OF nb] by simp
  show "caller ?s1 \<noteq> TerminateReturned"
    using inv_nobody_past(1) [OF inv nt] by simp
  show "\<forall>c'. children ?s1 c' \<noteq> Terminated"
    using inv_nobody_past(2) [OF inv nt] by simp
  show "caller ?s1 = WaitingAtBarrier \<longrightarrow> terminate (driver ?s1)"
    using inv_flag [OF inv] by simp
  show "lock_released ?s1 \<longrightarrow> terminate (driver ?s1)"
    using inv_lock [OF inv] by simp
qed

lemma inv_move_child:
  assumes inv: "lifecycle_inv s" and nb: "children s c \<noteq> AtBarrier" and nt: "children s c \<noteq> Terminated"
    and pc: "pc' \<noteq> AtBarrier" "pc' \<noteq> Terminated"
  shows "lifecycle_inv (s\<lparr>children := (children s)(c := pc')\<rparr>)"
proof (rule lifecycle_invI)
  let ?s1 = "s\<lparr>children := (children s)(c := pc')\<rparr>"
  have "at_barrier ?s1 = at_barrier s" using nb pc(1) by (rule at_barrier_child_moves)
  then show "waiting ?s1 = at_barrier ?s1" using inv_waiting [OF inv] by simp
  show "waiting ?s1 < barrier_parties" using inv_below [OF inv] by simp
  show "caller ?s1 \<noteq> TerminateReturned" using inv_nobody_past(1) [OF inv nt] by simp
  show "\<forall>c'. children ?s1 c' \<noteq> Terminated" using inv_nobody_past(2) [OF inv nt] pc(2) by simp
  show "caller ?s1 = WaitingAtBarrier \<longrightarrow> terminate (driver ?s1)"
    using inv_flag [OF inv] by simp
  show "lock_released ?s1 \<longrightarrow> terminate (driver ?s1)"
    using inv_lock [OF inv] by simp
qed

lemma inv_arrive_caller:
  assumes inv: "lifecycle_inv s" and c: "caller s = AcquiringLock" and l: "lock_released s"
  shows "lifecycle_inv (barrier_wait (s\<lparr>caller := WaitingAtBarrier\<rparr>))"
proof (rule inv_barrier_wait)
  let ?s1 = "s\<lparr>caller := WaitingAtBarrier\<rparr>"
  have nr: "caller s \<noteq> TerminateReturned" using c by simp
  have nw: "caller s \<noteq> WaitingAtBarrier" using c by simp
  show "at_barrier ?s1 = waiting ?s1 + 1"
    using inv_waiting [OF inv] at_barrier_caller_arrives [OF nw] by simp
  show "caller ?s1 \<noteq> TerminateReturned" by simp
  show "\<forall>c'. children ?s1 c' \<noteq> Terminated" using inv_not_returned [OF inv nr] by simp
  show "caller ?s1 = WaitingAtBarrier \<longrightarrow> terminate (driver ?s1)"
    using inv_lock [OF inv l] by simp
  show "lock_released ?s1 \<longrightarrow> terminate (driver ?s1)"
    using inv_lock [OF inv] by simp
qed

lemma inv_keep:
  assumes inv: "lifecycle_inv s"
    and same: "waiting s' = waiting s" "children s' = children s"
    and cw: "caller s' = WaitingAtBarrier \<longleftrightarrow> caller s = WaitingAtBarrier"
    and cr: "caller s' = TerminateReturned \<longleftrightarrow> caller s = TerminateReturned"
    and flag: "terminate (driver s) \<longrightarrow> terminate (driver s')"
    and lock: "lock_released s' \<longrightarrow> terminate (driver s')"
  shows "lifecycle_inv s'"
proof -
  have ab: "at_barrier s' = at_barrier s" using same cw by (simp add: at_barrier_def)
  show ?thesis
  proof (cases "caller s = TerminateReturned")
    case True
    have "\<forall>c. children s c = Terminated" using inv_returned [OF inv True] by simp
    moreover have "terminate (driver s)" using inv_flag [OF inv] True by simp
    ultimately show ?thesis
      unfolding lifecycle_inv_def using True same ab inv_waiting [OF inv] inv_below [OF inv] flag lock cr
      by simp
  next
    case False
    show ?thesis
    proof (rule lifecycle_invI)
      show "waiting s' = at_barrier s'" using inv_waiting [OF inv] same ab by simp
      show "waiting s' < barrier_parties" using inv_below [OF inv] same by simp
      show "caller s' \<noteq> TerminateReturned" using False cr by simp
      show "\<forall>c. children s' c \<noteq> Terminated" using inv_not_returned [OF inv False] same by simp
      show "caller s' = WaitingAtBarrier \<longrightarrow> terminate (driver s')"
        using inv_flag [OF inv] cw flag by simp
      show "lock_released s' \<longrightarrow> terminate (driver s')" by (rule lock)
    qed
  qed
qed

lemma child_step_stuck:
  "pc = AtBarrier \<or> pc = Terminated \<or> (\<exists>e. pc = Dead e) \<Longrightarrow> child_step ev pc = pc"
  by (cases ev) auto

lemma inv_child:
  assumes inv: "lifecycle_inv s"
  shows "lifecycle_inv (lifecycle_step lowest (Child c ev) s)"
proof (cases "child_allowed s c ev")
  case False
  then show ?thesis using inv by (simp add: lifecycle_step_def)
next
  case True
  let ?pc' = "child_step ev (children s c)"
  let ?s1 = "s\<lparr>children := (children s)(c := ?pc')\<rparr>"
  show ?thesis
  proof (cases "children s c = AtBarrier \<or> children s c = Terminated")
    case stuck: True
    then have same: "?pc' = children s c" by (intro child_step_stuck) blast
    then have s1: "?s1 = s" by simp
    have "lifecycle_step lowest (Child c ev) s = ?s1"
      using True same by (simp add: lifecycle_step_def Let_def)
    then show ?thesis using inv s1 by simp
  next
    case free: False
    then have nb: "children s c \<noteq> AtBarrier" and nt: "children s c \<noteq> Terminated" by simp_all
    have pnt: "?pc' \<noteq> Terminated" using nt by (simp add: child_step_Terminated)
    show ?thesis
    proof (cases "?pc' = AtBarrier")
      case arrive: True
      then have "lifecycle_step lowest (Child c ev) s =
                 barrier_wait (s\<lparr>children := (children s)(c := AtBarrier)\<rparr>)"
        using True nb by (simp add: lifecycle_step_def Let_def)
      then show ?thesis using inv_arrive_child [OF inv nb nt] by simp
    next
      case move: False
      then have "lifecycle_step lowest (Child c ev) s = ?s1"
        using True by (simp add: lifecycle_step_def Let_def)
      then show ?thesis using inv_move_child [OF inv nb nt move pnt] by simp
    qed
  qed
qed

lemma inv_step:
  assumes inv: "lifecycle_inv s"
  shows "lifecycle_inv (lifecycle_step lowest e s)"
proof (cases e)
  case (Child c ev)
  then show ?thesis using inv_child [OF inv] by simp
next
  case (CallTerminate now)
  show ?thesis
  proof (cases "caller s = NotCalled")
    case True
    have "lifecycle_inv (s\<lparr>driver := Terminate_begin lowest now (driver s), caller := AcquiringLock\<rparr>)"
      using inv
    proof (rule inv_keep)
      show "lock_released (s\<lparr>driver := Terminate_begin lowest now (driver s), caller := AcquiringLock\<rparr>) \<longrightarrow>
            terminate (driver (s\<lparr>driver := Terminate_begin lowest now (driver s), caller := AcquiringLock\<rparr>))"
        using inv_lock [OF inv] by (simp add: Terminate_begin_def)
    qed (simp_all add: True Terminate_begin_def)
    then show ?thesis using True CallTerminate by (simp add: lifecycle_step_def)
  next
    case False
    then show ?thesis using inv CallTerminate by (simp add: lifecycle_step_def)
  qed
next
  case (Submit m)
  have "lifecycle_inv (s\<lparr>driver := (driver s)\<lparr>out_queue := SendMessage m (out_queue (driver s))\<rparr>\<rparr>)"
    using inv by (rule inv_keep) (simp_all add: inv_lock [OF inv])
  then show ?thesis using inv Submit by (simp add: lifecycle_step_def)
next
  case TxDequeue
  have "lifecycle_inv (s\<lparr>driver := (driver s)\<lparr>out_queue := q'\<rparr>, taken := taken s @ [m]\<rparr>)" for q' m
    using inv by (rule inv_keep) (simp_all add: inv_lock [OF inv])
  then show ?thesis
    using inv TxDequeue
    by (simp add: lifecycle_step_def split: child_pc.splits option.splits prod.splits)
next
  case (RunCallback m)
  have a: "lifecycle_inv (s\<lparr>called := called s @ [m]\<rparr>)"
    using inv by (rule inv_keep) (simp_all add: inv_lock [OF inv])
  have b: "lifecycle_inv (cb (s\<lparr>called := called s @ [m]\<rparr>))"
    using inv by (rule inv_keep) (simp_all add: cb_def)
  show ?thesis
    using inv a b RunCallback by (simp add: lifecycle_step_def invoke_def Let_def)
next
  case LockAcquired
  show ?thesis
  proof (cases "caller s = AcquiringLock \<and> lock_released s")
    case True
    then show ?thesis using inv_arrive_caller [OF inv] LockAcquired by (simp add: lifecycle_step_def)
  next
    case False
    then show ?thesis using inv LockAcquired by (auto simp: lifecycle_step_def)
  qed
qed

lemma inv_run: "lifecycle_inv s \<Longrightarrow> lifecycle_inv (fold (lifecycle_step lowest) es s)"
  by (induction es arbitrary: s) (simp_all add: inv_step)


text \<open>The message of \<open>Terminate\<close>.\<close>

lemma message_inv_init: "message_inv lowest (lifecycle_init i)"
  by (simp add: message_inv_def lifecycle_init_def Driver_init_def waiting_messages_def
      MessageQueueOut_init_def)

lemma message_inv_keep:
  assumes "message_inv lowest s"
    and "driver s' = driver s" "taken s' = taken s" "called s' = called s"
    and "lock_released s' = lock_released s"
    and "caller s' = NotCalled \<longleftrightarrow> caller s = NotCalled"
  shows "message_inv lowest s'"
  using assms(1) unfolding message_inv_def waiting_messages_def assms(2-6) .

lemma barrier_wait_parts:
  "driver (barrier_wait s) = driver s" "taken (barrier_wait s) = taken s"
  "called (barrier_wait s) = called s" "lock_released (barrier_wait s) = lock_released s"
  "caller (barrier_wait s) = NotCalled \<longleftrightarrow> caller s = NotCalled"
  by (simp_all add: barrier_wait_def release_def Let_def)

lemma message_inv_child:
  assumes "message_inv lowest s"
  shows "message_inv lowest (lifecycle_step lowest (Child c ev) s)"
  using assms
proof (rule message_inv_keep)
qed (simp_all add: lifecycle_step_def Let_def barrier_wait_parts)

lemma message_inv_step:
  assumes inv: "message_inv lowest s"
  shows "message_inv lowest (lifecycle_step lowest e s)"
proof (cases e)
  case (Child c ev)
  then show ?thesis using message_inv_child [OF inv] by simp
next
  case (CallTerminate now)
  show ?thesis
  proof (cases "caller s = NotCalled")
    case False
    then show ?thesis using inv CallTerminate by (simp add: lifecycle_step_def)
  next
    case True
    let ?s' = "s\<lparr>driver := Terminate_begin lowest now (driver s), caller := AcquiringLock\<rparr>"
    have w: "waiting_messages ?s' = insert (terminate_message lowest) (waiting_messages s)"
      by (simp add: waiting_messages_def Terminate_begin_def SendMessage_def msgs_put)
    have old: "\<forall>m \<in> waiting_messages s \<union> set (taken s). callback m \<noteq> SetTerminateAndReleaseLock"
      using inv True unfolding message_inv_def by blast
    have off: "\<not> terminate (driver s)" "\<not> lock_released s"
      using inv True unfolding message_inv_def by blast+
    have "message_inv lowest ?s'"
      unfolding message_inv_def w using old off by (auto simp: Terminate_begin_def)
    then show ?thesis using True CallTerminate by (simp add: lifecycle_step_def)
  qed
next
  case (Submit m)
  show ?thesis
  proof (cases "callback m = SetTerminateAndReleaseLock")
    case True
    then show ?thesis using inv Submit by (simp add: lifecycle_step_def)
  next
    case False
    let ?s' = "s\<lparr>driver := (driver s)\<lparr>out_queue := SendMessage m (out_queue (driver s))\<rparr>\<rparr>"
    have w: "waiting_messages ?s' = insert m (waiting_messages s)"
      by (simp add: waiting_messages_def SendMessage_def msgs_put)
    have "message_inv lowest ?s'"
      using inv False unfolding message_inv_def w by auto
    then show ?thesis using False Submit by (simp add: lifecycle_step_def)
  qed
next
  case TxDequeue
  show ?thesis
  proof (cases "\<exists>delay m q'. children s TxThread = InFn delay \<and> get (out_queue (driver s)) = Some (m, q')")
    case False
    then have "lifecycle_step lowest TxDequeue s = s"
      by (auto simp: lifecycle_step_def split: child_pc.splits option.splits)
    then show ?thesis using inv TxDequeue by simp
  next
    case True
    then obtain delay m q' where c: "children s TxThread = InFn delay"
      and g: "get (out_queue (driver s)) = Some (m, q')" by blast
    let ?s' = "s\<lparr>driver := (driver s)\<lparr>out_queue := q'\<rparr>, taken := taken s @ [m]\<rparr>"
    have w1: "waiting_messages ?s' \<subseteq> waiting_messages s"
      and w2: "waiting_messages s \<subseteq> insert m (waiting_messages ?s')"
      using msgs_get [OF g] by (simp_all add: waiting_messages_def)
    have mw: "m \<in> waiting_messages s"
      using get_parts [OF g] by (force simp: waiting_messages_def)
    have u: "waiting_messages ?s' \<union> set (taken ?s') = waiting_messages s \<union> set (taken s)"
      using w1 w2 mw by auto
    have "message_inv lowest ?s'"
      using inv unfolding message_inv_def u by simp
    then show ?thesis using c g TxDequeue by (simp add: lifecycle_step_def)
  qed
next
  case (RunCallback m)
  show ?thesis
  proof (cases "m \<in> set (taken s)")
    case False
    then show ?thesis using inv RunCallback by (simp add: lifecycle_step_def)
  next
    case True
    show ?thesis
    proof (cases "callback m = SetTerminateAndReleaseLock")
      case cbm: True
      then have m: "m = terminate_message lowest" "caller s \<noteq> NotCalled"
        using inv True unfolding message_inv_def by blast+
      have "message_inv lowest (cb (s\<lparr>called := called s @ [m]\<rparr>))"
        using inv m unfolding message_inv_def waiting_messages_def by (simp add: cb_def)
      then show ?thesis using True cbm RunCallback by (simp add: lifecycle_step_def invoke_def)
    next
      case other: False
      have "message_inv lowest (s\<lparr>called := called s @ [m]\<rparr>)"
        using inv unfolding message_inv_def waiting_messages_def by simp
      then show ?thesis using True other RunCallback by (simp add: lifecycle_step_def invoke_def)
    qed
  qed
next
  case LockAcquired
  show ?thesis
  proof (cases "caller s = AcquiringLock \<and> lock_released s")
    case False
    then show ?thesis using inv LockAcquired by (auto simp: lifecycle_step_def)
  next
    case True
    have "message_inv lowest (barrier_wait (s\<lparr>caller := WaitingAtBarrier\<rparr>))"
      using inv
    proof (rule message_inv_keep)
    qed (simp_all add: barrier_wait_parts True)
    then show ?thesis using True LockAcquired by (simp add: lifecycle_step_def)
  qed
qed

lemma message_inv_run: "message_inv lowest s \<Longrightarrow> message_inv lowest (fold (lifecycle_step lowest) es s)"
  by (induction es arbitrary: s) (simp_all add: message_inv_step)

subsection \<open>Claim C6: \<open>Terminate\<close> returns only after every worker loop has ended\<close>

text \<open>
  Claim C6, in every run, whatever the order of the steps. Once \<open>Terminate\<close> has been
  entered, the shutdown marker has been put into the inbound queue and the message whose
  callback sets \<open>_terminate\<close> is in the outbound queue, until the sending thread takes
  it. \<open>_terminate\<close> is set only by that callback: when it is set, the callback of the
  message of \<open>Terminate\<close> has been invoked. The caller then waits at the barrier, which
  was made for the three child threads and the caller, and a child thread reaches the
  barrier only after it has left the loop of \<open>_run_child_thread\<close>: when \<open>Terminate\<close> has
  returned, all three child threads are past the barrier, none is in its loop,
  \<open>_terminate\<close> is set, and the callback of the message has been invoked.
\<close>

theorem terminate_rendezvous:
  "(caller (fold (lifecycle_step lowest) es (lifecycle_init i)) \<noteq> NotCalled \<longrightarrow>
      None \<in> snd ` set (in_queue (driver (fold (lifecycle_step lowest) es (lifecycle_init i)))) \<and>
      terminate_message lowest \<in>
        waiting_messages (fold (lifecycle_step lowest) es (lifecycle_init i)) \<union>
        set (taken (fold (lifecycle_step lowest) es (lifecycle_init i)))) \<and>
   (terminate (driver (fold (lifecycle_step lowest) es (lifecycle_init i))) \<longrightarrow>
      terminate_message lowest \<in> set (called (fold (lifecycle_step lowest) es (lifecycle_init i)))) \<and>
   (caller (fold (lifecycle_step lowest) es (lifecycle_init i)) = TerminateReturned \<longrightarrow>
      (\<forall>c. children (fold (lifecycle_step lowest) es (lifecycle_init i)) c = Terminated) \<and>
      terminate (driver (fold (lifecycle_step lowest) es (lifecycle_init i))) \<and>
      terminate_message lowest \<in> set (called (fold (lifecycle_step lowest) es (lifecycle_init i))))"
proof -
  let ?s = "fold (lifecycle_step lowest) es (lifecycle_init i)"
  have l: "lifecycle_inv ?s"
    using inv_init by (rule inv_run)
  have m: "message_inv lowest ?s"
    using message_inv_init by (rule message_inv_run)
  have 1: "caller ?s \<noteq> NotCalled \<longrightarrow>
      None \<in> snd ` set (in_queue (driver ?s)) \<and>
      terminate_message lowest \<in> waiting_messages ?s \<union> set (taken ?s)"
    using m unfolding message_inv_def by blast
  have 2: "terminate (driver ?s) \<longrightarrow> terminate_message lowest \<in> set (called ?s)"
    using m unfolding message_inv_def by blast
  have 3: "caller ?s = TerminateReturned \<longrightarrow>
      (\<forall>c. children ?s c = Terminated) \<and> terminate (driver ?s)"
    using inv_returned [OF l] inv_flag [OF l] by blast
  from 1 2 3 show ?thesis by blast
qed

text \<open>
  A run in which \<open>Terminate\<close> returns: the three threads enter their functions and the
  caller enters \<open>Terminate\<close>; the sending thread takes the message and its callback is
  invoked; the caller goes to the barrier; the write of the empty payload ends the call
  of the sending thread with \<open>TypeError\<close>, after which its wrapper finds \<open>_terminate\<close> set;
  the two other functions return.
\<close>

theorem terminate_rendezvous_witness:
  "caller (fold (lifecycle_step (1000, 0, - 1))
      [Child TxThread (Check False), Child RxThread (Check False),
       Child ForwardingThread (Check False), CallTerminate 10, TxDequeue,
       RunCallback (terminate_message (1000, 0, - 1)), LockAcquired,
       Child TxThread (FnRaises TypeError), Child TxThread Woke, Child TxThread (Check True),
       Child RxThread FnReturns, Child ForwardingThread FnReturns]
      (lifecycle_init ())) = TerminateReturned \<and>
   (\<forall>c. children (fold (lifecycle_step (1000, 0, - 1))
      [Child TxThread (Check False), Child RxThread (Check False),
       Child ForwardingThread (Check False), CallTerminate 10, TxDequeue,
       RunCallback (terminate_message (1000, 0, - 1)), LockAcquired,
       Child TxThread (FnRaises TypeError), Child TxThread Woke, Child TxThread (Check True),
       Child RxThread FnReturns, Child ForwardingThread FnReturns]
      (lifecycle_init ())) c = Terminated) \<and>
   terminate_message (1000, 0, - 1) \<in> set (called (fold (lifecycle_step (1000, 0, - 1))
      [Child TxThread (Check False), Child RxThread (Check False),
       Child ForwardingThread (Check False), CallTerminate 10, TxDequeue,
       RunCallback (terminate_message (1000, 0, - 1)), LockAcquired,
       Child TxThread (FnRaises TypeError), Child TxThread Woke, Child TxThread (Check True),
       Child RxThread FnReturns, Child ForwardingThread FnReturns]
      (lifecycle_init ())))"
proof -
  let ?es = "[Child TxThread (Check False), Child RxThread (Check False),
       Child ForwardingThread (Check False), CallTerminate 10, TxDequeue,
       RunCallback (terminate_message (1000, 0, - 1)), LockAcquired,
       Child TxThread (FnRaises TypeError), Child TxThread Woke, Child TxThread (Check True),
       Child RxThread FnReturns, Child ForwardingThread FnReturns]"
  let ?s = "fold (lifecycle_step (1000, 0, - 1)) ?es (lifecycle_init ())"
  have r: "caller ?s = TerminateReturned"
    by (simp add: lifecycle_step_def lifecycle_init_def Driver_init_def child_allowed_def
        barrier_wait_def release_def barrier_parties_def child_threads_def child_start_def
        Terminate_begin_def terminate_message_def invoke_def cb_def Let_def SendMessage_def
        get_def put_def q_get_def MessageQueueOut_init_def level_of_def node_of_def count_of_def)
  from terminate_rendezvous [of "(1000, 0, - 1)" ?es "()"] r
  show ?thesis by blast
qed

subsection \<open>Claim C9: the message may be gone when the retry branch reads it\<close>

text \<open>
  Claim C9 says that the record still holds a message whenever the next action is retry.
  A message is sent; a negative-acknowledge arrives and the state machine answers retry;
  before the receiving thread takes the branch, the deadline of \<open>WaitForCompletion\<close>
  resolves the message; then \<open>GetMessage()\<close> is \<open>None\<close> and the branch raises
  \<open>AttributeError\<close>, which ends the call of the receiving thread. This is the race that
  the comment at lines 381 and 382 describes and takes to be benign.
\<close>

theorem retry_after_deadline_raises:
  "rx_pending (fold (sys_step \<lparr>max_retries = 3, expected_reply = (\<lambda>m. None),
                               extract_frame = (\<lambda>b. None)\<rparr>)
      [Send (low_msg 5 [1, 2]), Tx 0 None, Tx 0 None, Tx 1 None, Tx 1 None, Tx 2 None,
       Rx [NAK] 3, Deadline] sys_init) =
     Some (3, [NAK], DO_RETRY) \<and>
   GetMessage (zm_spec \<lparr>max_retries = 3, expected_reply = (\<lambda>m. None),
                         extract_frame = (\<lambda>b. None)\<rparr>)
     (inflight (drv (tx_side (fold (sys_step \<lparr>max_retries = 3, expected_reply = (\<lambda>m. None),
                               extract_frame = (\<lambda>b. None)\<rparr>)
      [Send (low_msg 5 [1, 2]), Tx 0 None, Tx 0 None, Tx 1 None, Tx 1 None, Tx 2 None,
       Rx [NAK] 3, Deadline] sys_init)))) =
     None \<and>
   rx_faults (fold (sys_step \<lparr>max_retries = 3, expected_reply = (\<lambda>m. None),
                               extract_frame = (\<lambda>b. None)\<rparr>)
      [Send (low_msg 5 [1, 2]), Tx 0 None, Tx 0 None, Tx 1 None, Tx 1 None, Tx 2 None,
       Rx [NAK] 3, Deadline, RxAct 4 None]
      sys_init) = [AttributeError]"
  by (simp add: sys_step_def sys_init_def zm_spec_def tx_step_def tx_raise_def act_def
      tx_start_def SendMessage_def get_def put_def q_get_def MessageQueueOut_init_def
      level_of_def node_of_def count_of_def Let_def low_msg_def RecordInflight_def SendRaw_def
      LogSent_def LogReceived_def rx_receive_def rx_frame_def rx_act_def rx_init_def
      OnReceive_def StartMessage_spec_def WaitForCompletion_spec_def GetMessage_spec_def
      deadline_def resolve_def fire_def InflightMessage_init_def ACK_def NAK_def CAN_def SOF_def)

end
